theory Spec2Isabelle
  imports Main "HOL-Library.Word"
begin

section \<open>Data model of pkg/sources/chunker.go\<close>

type_synonym byte = "8 word"

text \<open>
  Go's \<open>int\<close> is taken as the 64-bit signed integer of the usual platforms. The model
  keeps mathematical integers and writes the wrap-around of \<open>+\<close> out.
\<close>

definition go_int :: "int \<Rightarrow> int" where
  "go_int x = (x + 2 ^ 63) mod 2 ^ 64 - 2 ^ 63"

definition ChunkSize :: int where
  "ChunkSize = 10 * 1024"

definition PeekSize :: int where
  "PeekSize = 3 * 1024"

definition TotalChunkSize :: int where
  "TotalChunkSize = ChunkSize + PeekSize"

record chunkReaderConfig =
  chunkSize :: int
  totalSize :: int
  peekSize :: int
  smallChunkThreshold :: int

text \<open>A \<open>ConfigOption\<close> mutates the configuration it is handed; here it returns the new one.\<close>

type_synonym ConfigOption = "chunkReaderConfig \<Rightarrow> chunkReaderConfig"

definition WithChunkSize :: "int \<Rightarrow> ConfigOption" where
  "WithChunkSize sz = (\<lambda>c. c\<lparr>chunkSize := sz\<rparr>)"

definition WithPeekSize :: "int \<Rightarrow> ConfigOption" where
  "WithPeekSize sz = (\<lambda>c. c\<lparr>peekSize := sz\<rparr>)"

text \<open>
  \<open>applyOptions\<close>: the defaults, then every option in order, then \<open>totalSize\<close>.
  The struct literal leaves \<open>totalSize\<close> at its zero value. The threshold is the constant
  expression \<open>int(float64(ChunkSize+PeekSize) * 0.5)\<close>; the product \<open>13312 * 0.5\<close> is exact,
  so it is written as the integer half.
\<close>

definition applyOptions :: "ConfigOption list \<Rightarrow> chunkReaderConfig" where
  "applyOptions opts =
     (let config = \<lparr>chunkSize = ChunkSize, totalSize = 0, peekSize = PeekSize,
                    smallChunkThreshold = (ChunkSize + PeekSize) div 2\<rparr>;
          config = fold (\<lambda>opt c. opt c) opts config
      in config\<lparr>totalSize := go_int (chunkSize config + peekSize config)\<rparr>)"

subsection \<open>Errors\<close>

text \<open>
  The sentinel errors of \<open>io\<close> and \<open>bufio\<close> that the chunker can meet, any other error of a
  source (\<open>Other\<close>), and an error wrapping another one (\<open>Wrap\<close>, as \<open>fmt.Errorf("%w")\<close> builds).
\<close>

datatype error =
    EOF
  | ErrUnexpectedEOF
  | ErrNoProgress
  | ErrBufferFull
  | ErrNegativeCount
  | Other string
  | Wrap string error

text \<open>\<open>errors.Is\<close>: the error itself or any error down its chain of wrapped errors.\<close>

fun errors_Is :: "error \<Rightarrow> error \<Rightarrow> bool" where
  "errors_Is (Wrap m e) target = (Wrap m e = target \<or> errors_Is e target)"
| "errors_Is e target = (e = target)"

definition isErrAndNotEOF :: "error option \<Rightarrow> bool" where
  "isErrAndNotEOF err =
     (case err of
        None \<Rightarrow> False
      | Some e \<Rightarrow> if errors_Is e EOF \<or> errors_Is e ErrUnexpectedEOF then False else True)"

subsection \<open>Chunk results\<close>

text \<open>
  A \<open>ChunkResult\<close> holds a byte slice and an error. A slice has a length and a capacity;
  the capacity is kept beside the bytes. The nil slice has no bytes and capacity 0.
\<close>

record ChunkResult =
  data :: "byte list"
  data_cap :: nat
  err :: "error option"

definition Bytes :: "ChunkResult \<Rightarrow> byte list" where
  "Bytes cr = data cr"

definition Error :: "ChunkResult \<Rightarrow> error option" where
  "Error cr = err cr"

section \<open>The byte source\<close>

text \<open>
  The \<open>io.Reader\<close> handed to the chunker is an opaque sequential supplier. It is modelled
  as a script of the answers it will give: each entry holds the bytes the source has ready
  for one \<open>Read\<close> and the error it returns with the last of them. A \<open>Read\<close> into a buffer
  shorter than the entry takes a part and leaves the rest; once the script is used up every
  \<open>Read\<close> answers \<open>0\<close> bytes and the error \<open>final\<close>: \<open>io.EOF\<close> for a source that ends, another
  error for a source that stays broken. Short reads, empty reads, errors in the middle of
  the data, data after an error and data returned together with an error are all scripts.
\<close>

record reader =
  script :: "(byte list \<times> error option) list"
  final :: error

definition rd_Read :: "nat \<Rightarrow> reader \<Rightarrow> byte list \<times> error option \<times> reader" where
  "rd_Read k r =
     (case script r of
        [] \<Rightarrow> ([], Some (final r), r)
      | (bs, e) # rest \<Rightarrow>
          (if k < length bs then (take k bs, None, r\<lparr>script := (drop k bs, e) # rest\<rparr>)
           else (bs, e, r\<lparr>script := rest\<rparr>)))"

subsection \<open>bufio.Reader\<close>

text \<open>
  The state of a \<open>bufio.Reader\<close>: the size of its buffer \<open>len(b.buf)\<close>, the bytes
  \<open>b.buf[b.r:b.w]\<close> read from the source and not yet handed out, the source \<open>b.rd\<close> and
  the pending error \<open>b.err\<close>.
\<close>

record bufio_Reader =
  buf_len :: nat
  buffered :: "byte list"
  rd :: reader
  berr :: "error option"

text \<open>\<open>bufio.NewReaderSize\<close>: the buffer has at least \<open>minReadBufferSize = 16\<close> bytes.\<close>

definition NewReaderSize :: "reader \<Rightarrow> int \<Rightarrow> bufio_Reader" where
  "NewReaderSize r sz =
     \<lparr>buf_len = nat (max sz 16), buffered = [], rd = r, berr = None\<rparr>"

definition readErr :: "bufio_Reader \<Rightarrow> error option \<times> bufio_Reader" where
  "readErr b = (berr b, b\<lparr>berr := None\<rparr>)"

text \<open>
  \<open>(*Reader).Read\<close> into a slice of \<open>k\<close> bytes: from the buffer when it holds bytes;
  otherwise one read of the source, straight into the caller's slice when that is at least
  as long as the buffer, into the buffer when it is shorter.
\<close>

definition bufio_Read :: "nat \<Rightarrow> bufio_Reader \<Rightarrow> byte list \<times> error option \<times> bufio_Reader" where
  "bufio_Read k b =
     (if k = 0 then
        (if buffered b \<noteq> [] then ([], None, b)
         else (case readErr b of (e, b') \<Rightarrow> ([], e, b')))
      else if buffered b = [] then
        (if berr b \<noteq> None then (case readErr b of (e, b') \<Rightarrow> ([], e, b'))
         else if buf_len b \<le> k then
           (case rd_Read k (rd b) of (bs, e, r') \<Rightarrow>
              (case readErr (b\<lparr>rd := r', berr := e\<rparr>) of (e', b') \<Rightarrow> (bs, e', b')))
         else
           (case rd_Read (buf_len b) (rd b) of (bs, e, r') \<Rightarrow>
              (if bs = [] then
                 (case readErr (b\<lparr>rd := r', berr := e\<rparr>) of (e', b') \<Rightarrow> ([], e', b'))
               else (take k bs, None, b\<lparr>buffered := drop k bs, rd := r', berr := e\<rparr>))))
      else (take k (buffered b), None, b\<lparr>buffered := drop k (buffered b)\<rparr>))"

text \<open>
  \<open>(*Reader).fill\<close>: slide the buffered bytes to the front, then read the source into the
  free part of the buffer, at most \<open>maxConsecutiveEmptyReads = 100\<close> times while it
  answers \<open>0, nil\<close>. Its callers only call it on a buffer that is not full.
\<close>

fun fill_tries :: "nat \<Rightarrow> bufio_Reader \<Rightarrow> bufio_Reader" where
  "fill_tries 0 b = b\<lparr>berr := Some ErrNoProgress\<rparr>"
| "fill_tries (Suc i) b =
     (case rd_Read (buf_len b - length (buffered b)) (rd b) of (bs, e, r') \<Rightarrow>
        (let b' = b\<lparr>buffered := buffered b @ bs, rd := r'\<rparr>
         in if e \<noteq> None then b'\<lparr>berr := e\<rparr>
            else if bs \<noteq> [] then b'
            else fill_tries i b'))"

definition fill :: "bufio_Reader \<Rightarrow> bufio_Reader" where
  "fill b = fill_tries 100 b"

definition script_size :: "reader \<Rightarrow> nat" where
  "script_size r = sum_list (map (\<lambda>(bs, e). Suc (length bs)) (script r))"

definition remaining :: "bufio_Reader \<Rightarrow> nat" where
  "remaining b = length (buffered b) + script_size (rd b)"

lemma rd_Read_size:
  "rd_Read k r = (bs, e, r') \<Longrightarrow> script_size r' + length bs \<le> script_size r"
  by (cases "script r") (auto simp: rd_Read_def script_size_def split: if_splits)

lemma rd_Read_progress:
  "rd_Read k r = (bs, None, r') \<Longrightarrow> 0 < k \<Longrightarrow> script_size r' < script_size r"
  by (cases "script r") (auto simp: rd_Read_def script_size_def split: if_splits)

lemma bufio_Read_remaining:
  "bufio_Read k b = (bs, e, b') \<Longrightarrow> remaining b' + length bs \<le> remaining b"
  unfolding bufio_Read_def readErr_def remaining_def
  by (auto split: if_splits prod.splits dest!: rd_Read_size)

lemma bufio_Read_progress:
  assumes "bufio_Read k b = (bs, None, b')" and "0 < k"
  shows "remaining b' < remaining b"
proof (cases "buffered b = []")
  case False
  with assms show ?thesis
    by (cases "buffered b") (auto simp: bufio_Read_def remaining_def)
next
  case True
  note emp = this
  show ?thesis
  proof (cases "berr b = None")
    case False
    with assms emp show ?thesis
      by (auto simp: bufio_Read_def readErr_def)
  next
    case True
    note noerr = this
    show ?thesis
    proof (cases "buf_len b \<le> k")
      case True
      obtain cs e r' where R: "rd_Read k (rd b) = (cs, e, r')"
        by (cases "rd_Read k (rd b)") auto
      with assms emp noerr True have "e = None" "b' = b\<lparr>rd := r', berr := None\<rparr>"
        by (auto simp: bufio_Read_def readErr_def)
      with rd_Read_progress[of k "rd b" cs r'] R assms(2) emp show ?thesis
        by (simp add: remaining_def)
    next
      case False
      obtain cs e r' where R: "rd_Read (buf_len b) (rd b) = (cs, e, r')"
        by (cases "rd_Read (buf_len b) (rd b)") auto
      show ?thesis
      proof (cases "cs = []")
        case True
        with assms emp noerr False R have "e = None" "b' = b\<lparr>rd := r', berr := None\<rparr>"
          by (auto simp: bufio_Read_def readErr_def)
        moreover from False assms(2) have "0 < buf_len b" by simp
        ultimately show ?thesis
          using rd_Read_progress[of "buf_len b" "rd b" cs r'] R emp
          by (simp add: remaining_def)
      next
        case False
        with assms emp noerr \<open>\<not> buf_len b \<le> k\<close> R
        have "b' = b\<lparr>buffered := drop k cs, rd := r', berr := e\<rparr>"
          by (auto simp: bufio_Read_def readErr_def)
        moreover from False have "0 < length cs" by simp
        ultimately show ?thesis
          using rd_Read_size[OF R] emp assms(2)
          by (cases cs) (auto simp: remaining_def)
      qed
    qed
  qed
qed


lemma fill_tries_remaining: "remaining (fill_tries i b) \<le> remaining b"
proof (induction i arbitrary: b)
  case 0
  show ?case by (simp add: remaining_def)
next
  case (Suc i)
  obtain bs e r' where R: "rd_Read (buf_len b - length (buffered b)) (rd b) = (bs, e, r')"
    by (cases "rd_Read (buf_len b - length (buffered b)) (rd b)") auto
  have le: "remaining (b\<lparr>buffered := buffered b @ bs, rd := r'\<rparr>) \<le> remaining b"
    using rd_Read_size[OF R] by (simp add: remaining_def)
  show ?case
    using R le Suc.IH[of "b\<lparr>buffered := buffered b @ bs, rd := r'\<rparr>"]
    by (auto simp: Let_def remaining_def)
qed

lemma fill_tries_buf_len: "buf_len (fill_tries i b) = buf_len b"
  by (induction i arbitrary: b) (auto simp: Let_def split: prod.splits)

lemma fill_tries_grows:
  "berr (fill_tries i b) = None \<Longrightarrow> berr b = None \<Longrightarrow>
   length (buffered b) < length (buffered (fill_tries i b))"
proof (induction i arbitrary: b)
  case 0
  then show ?case by simp
next
  case (Suc i)
  obtain bs e r' where R: "rd_Read (buf_len b - length (buffered b)) (rd b) = (bs, e, r')"
    by (cases "rd_Read (buf_len b - length (buffered b)) (rd b)") auto
  show ?case
  proof (cases "e \<noteq> None \<or> bs \<noteq> []")
    case True
    with Suc.prems R show ?thesis by (auto simp: Let_def)
  next
    case False
    with Suc.prems R Suc.IH[of "b\<lparr>buffered := buffered b @ bs, rd := r'\<rparr>"]
    show ?thesis by (auto simp: Let_def)
  qed
qed

text \<open>
  The loop of \<open>(*Reader).Peek\<close>: fill while fewer than \<open>n\<close> bytes are buffered, the
  buffer is not full and no error is pending.
\<close>

function peek_fill :: "nat \<Rightarrow> bufio_Reader \<Rightarrow> bufio_Reader" where
  "peek_fill n b =
     (if length (buffered b) < n \<and> length (buffered b) < buf_len b \<and> berr b = None
      then peek_fill n (fill b) else b)"
  by pat_completeness auto
termination
proof (relation "measure (\<lambda>(n, b). if berr b = None then Suc (buf_len b - length (buffered b)) else 0)")
  show "wf (measure (\<lambda>(n, b). if berr b = None then Suc (buf_len b - length (buffered b)) else 0))"
    by simp
next
  fix n :: nat and b :: bufio_Reader
  assume a: "length (buffered b) < n \<and> length (buffered b) < buf_len b \<and> berr b = None"
  show "((n, fill b), (n, b)) \<in> measure (\<lambda>(n, b). if berr b = None then Suc (buf_len b - length (buffered b)) else 0)"
  proof (cases "berr (fill b) = None")
    case True
    with a fill_tries_grows[of 100 b] have "length (buffered b) < length (buffered (fill b))"
      by (simp add: fill_def)
    with a True show ?thesis
      by (simp add: fill_def fill_tries_buf_len) arith
  next
    case False
    with a show ?thesis by auto
  qed
qed

declare peek_fill.simps [simp del]

text \<open>\<open>(*Reader).Peek(n)\<close>: the next \<open>n\<close> bytes, or fewer with the reason, consuming none.\<close>

definition bufio_Peek :: "int \<Rightarrow> bufio_Reader \<Rightarrow> byte list \<times> error option \<times> bufio_Reader" where
  "bufio_Peek n b =
     (if n < 0 then ([], Some ErrNegativeCount, b)
      else
        (let b1 = peek_fill (nat n) b in
         if buf_len b1 < nat n then (buffered b1, Some ErrBufferFull, b1)
         else if length (buffered b1) < nat n then
           (case readErr b1 of (e, b2) \<Rightarrow>
              (buffered b1, Some (case e of None \<Rightarrow> ErrBufferFull | Some x \<Rightarrow> x), b2))
         else (take (nat n) (buffered b1), None, b1)))"

text \<open>
  \<open>io.ReadFull(r, buf)\<close> is \<open>io.ReadAtLeast(r, buf, len(buf))\<close>: read until \<open>m\<close> bytes are
  there or a read returns an error; the error is dropped when the bytes are all there, and
  \<open>io.EOF\<close> after some bytes becomes \<open>io.ErrUnexpectedEOF\<close>.
\<close>

function read_loop :: "nat \<Rightarrow> byte list \<Rightarrow> bufio_Reader \<Rightarrow> byte list \<times> error option \<times> bufio_Reader" where
  "read_loop m acc b =
     (if length acc < m then
        (case bufio_Read (m - length acc) b of (bs, e, b') \<Rightarrow>
           if e = None then read_loop m (acc @ bs) b' else (acc @ bs, e, b'))
      else (acc, None, b))"
  by pat_completeness auto
termination
  by (relation "measure (\<lambda>(m, acc, b). remaining b)")
     (auto intro: bufio_Read_progress[OF sym])

declare read_loop.simps [simp del]

definition io_ReadFull :: "nat \<Rightarrow> bufio_Reader \<Rightarrow> byte list \<times> error option \<times> bufio_Reader" where
  "io_ReadFull m b =
     (case read_loop m [] b of (bs, e, b') \<Rightarrow>
        (bs,
         (if m \<le> length bs then None
          else if 0 < length bs \<and> e = Some EOF then Some ErrUnexpectedEOF
          else e),
         b'))"


lemma read_loop_remaining:
  "read_loop m acc b = (bs, e, b') \<Longrightarrow> remaining b' + length bs \<le> remaining b + length acc"
proof (induction m acc b rule: read_loop.induct)
  case (1 m acc b)
  show ?case
  proof (cases "length acc < m")
    case False
    with "1.prems" show ?thesis by (simp add: read_loop.simps[of m acc b])
  next
    case True
    obtain cs e1 b1 where R: "bufio_Read (m - length acc) b = (cs, e1, b1)"
      by (cases "bufio_Read (m - length acc) b") auto
    note le = bufio_Read_remaining[OF R]
    show ?thesis
    proof (cases "e1 = None")
      case False
      with True R "1.prems" le show ?thesis by (auto simp: read_loop.simps[of m acc b])
    next
      case e1: True
      with True R "1.prems" have "read_loop m (acc @ cs) b1 = (bs, e, b')"
        by (simp add: read_loop.simps[of m acc b])
      from "1.IH"[OF True R[symmetric] refl e1 this] le show ?thesis by simp
    qed
  qed
qed

lemma io_ReadFull_remaining:
  "io_ReadFull m b = (bs, e, b') \<Longrightarrow> remaining b' + length bs \<le> remaining b"
  unfolding io_ReadFull_def
  by (auto split: prod.splits dest: read_loop_remaining)

lemma peek_fill_remaining: "remaining (peek_fill n b) \<le> remaining b"
proof (induction n b rule: peek_fill.induct)
  case (1 n b)
  show ?case
  proof (cases "length (buffered b) < n \<and> length (buffered b) < buf_len b \<and> berr b = None")
    case True
    with "1.IH" fill_tries_remaining[of 100 b] show ?thesis
      by (simp add: fill_def peek_fill.simps[of n b])
  next
    case False
    then show ?thesis by (auto simp: peek_fill.simps[of n b])
  qed
qed

lemma bufio_Peek_remaining:
  "bufio_Peek n b = (bs, e, b') \<Longrightarrow> remaining b' \<le> remaining b"
  using peek_fill_remaining[of "nat n" b]
  by (auto simp: bufio_Peek_def Let_def readErr_def remaining_def split: if_splits)

section \<open>The chunk producer\<close>

subsection \<open>The goroutine's environment\<close>

text \<open>
  The producer sends on a channel of capacity \<open>channelSize\<close> inside a \<open>select\<close> with
  \<open>ctx.Done()\<close>. What the producer cannot decide is given by its environment, one
  observation for each \<open>select\<close> it reaches: whether the context is cancelled, how many
  results the consumer has received, and which case the Go runtime takes when both can
  proceed (it chooses among the ready cases at random). The send can proceed when fewer
  than \<open>channelSize\<close> results are waiting in the channel. When neither case can ever
  proceed the goroutine stays blocked.
\<close>

definition channelSize :: nat where
  "channelSize = 64"

record sel_env =
  ctx_done :: bool
  consumed :: nat
  pick_send :: bool

datatype sel_outcome = Sent | Cancelled | Blocks

definition select_send :: "sel_env \<Rightarrow> nat \<Rightarrow> sel_outcome" where
  "select_send env sent =
     (let room = (sent - consumed env < channelSize) in
      if ctx_done env \<and> room then (if pick_send env then Sent else Cancelled)
      else if ctx_done env then Cancelled
      else if room then Sent
      else Blocks)"

text \<open>
  What a run of the goroutine leaves behind: the results it sent on the channel, in order,
  the errors it handed to \<open>ctx.Logger().Error\<close>, and how it ended: it returned and the
  deferred \<open>close\<close> closed the channel, it stayed blocked in the \<open>select\<close>, or it panicked.
\<close>

datatype exit = Closed | Blocked | Panicked

record run =
  emitted :: "ChunkResult list"
  logged :: "error list"
  status :: exit

subsection \<open>One iteration\<close>

text \<open>
  Lines 113 to 128: the read of \<open>chunkSize\<close> bytes into a buffer of capacity \<open>totalSize\<close>,
  the peek and the assembly of the data. The result is \<open>n\<close>, the error of the read, the
  chunk result so far and the reader. \<open>Peek\<close> returns no more than it is asked for, so the
  \<open>append\<close> stays inside the capacity \<open>totalSize\<close> of \<open>chunkBytes\<close>.
\<close>

definition read_chunk ::
  "chunkReaderConfig \<Rightarrow> bufio_Reader \<Rightarrow> nat \<times> error option \<times> ChunkResult \<times> bufio_Reader" where
  "read_chunk config chunkReader =
     (case io_ReadFull (nat (chunkSize config)) chunkReader of (chunkBytes, e, r1) \<Rightarrow>
        (let n = length chunkBytes in
         if 0 < n then
           (case bufio_Peek (totalSize config - int n) r1 of (peekData, pe, r2) \<Rightarrow>
              (if int n + int (length peekData) < smallChunkThreshold config then
                 (n, e, \<lparr>data = chunkBytes @ peekData, data_cap = n + length peekData,
                          err = None\<rparr>, r2)
               else
                 (n, e, \<lparr>data = chunkBytes @ peekData, data_cap = nat (totalSize config),
                          err = None\<rparr>, r2)))
         else (n, e, \<lparr>data = [], data_cap = 0, err = None\<rparr>, r1)))"

lemma read_chunk_remaining:
  assumes "read_chunk config b = (n, e, cr, b')" and "0 < n"
  shows "remaining b' < remaining b"
proof -
  obtain core e1 r1 where R: "io_ReadFull (nat (chunkSize config)) b = (core, e1, r1)"
    by (cases "io_ReadFull (nat (chunkSize config)) b") auto
  obtain p pe r2 where P: "bufio_Peek (totalSize config - int (length core)) r1 = (p, pe, r2)"
    by (cases "bufio_Peek (totalSize config - int (length core)) r1") auto
  from assms R P have "n = length core" "b' = r2"
    by (auto simp: read_chunk_def Let_def split: if_splits)
  with io_ReadFull_remaining[OF R] bufio_Peek_remaining[OF P] assms(2) show ?thesis
    by (cases core) auto
qed

text \<open>
  Lines 132 to 140, the \<open>switch\<close>: a reportable error is logged and attached; otherwise a
  read that got bytes gives a result with no error; otherwise the goroutine returns
  (\<open>None\<close>). The result holds the chunk result to send and what was logged.
\<close>

definition classify ::
  "error option \<Rightarrow> nat \<Rightarrow> ChunkResult \<Rightarrow> (ChunkResult \<times> error list) option" where
  "classify e n chunkRes =
     (if isErrAndNotEOF e then
        Some (chunkRes\<lparr>err := e\<rparr>, (case e of None \<Rightarrow> [] | Some x \<Rightarrow> [x]))
      else if 0 < n then Some (chunkRes\<lparr>err := None\<rparr>, [])
      else None)"

subsection \<open>The loop\<close>

text \<open>
  The body of the goroutine, from a reader state and the number of results sent so far.
  \<open>make\<close> panics on a negative \<open>totalSize\<close>, the slice expression on a \<open>chunkSize\<close> that
  is negative or above the capacity. The recursive call is the next turn of \<open>for\<close>.
\<close>

function chunk_loop ::
  "chunkReaderConfig \<Rightarrow> (nat \<Rightarrow> sel_env) \<Rightarrow> nat \<Rightarrow> bufio_Reader \<Rightarrow> run" where
  "chunk_loop config ctx sent chunkReader =
     (if totalSize config < 0 \<or> chunkSize config < 0 \<or> totalSize config < chunkSize config
      then \<lparr>emitted = [], logged = [], status = Panicked\<rparr>
      else
        (case read_chunk config chunkReader of (n, e, chunkRes0, r) \<Rightarrow>
           (case classify e n chunkRes0 of
              None \<Rightarrow> \<lparr>emitted = [], logged = [], status = Closed\<rparr>
            | Some (chunkRes, lg) \<Rightarrow>
                (case select_send (ctx sent) sent of
                   Cancelled \<Rightarrow> \<lparr>emitted = [], logged = lg, status = Closed\<rparr>
                 | Blocks \<Rightarrow> \<lparr>emitted = [], logged = lg, status = Blocked\<rparr>
                 | Sent \<Rightarrow>
                     if e \<noteq> None
                     then \<lparr>emitted = [chunkRes], logged = lg, status = Closed\<rparr>
                     else
                       (let rest = chunk_loop config ctx (Suc sent) r
                        in rest\<lparr>emitted := chunkRes # emitted rest,
                                 logged := lg @ logged rest\<rparr>)))))"
  by pat_completeness auto
termination
  apply (relation "measure (\<lambda>(config, ctx, sent, b). remaining b)")
   apply simp
  apply (auto simp: classify_def isErrAndNotEOF_def split: if_splits
              intro: read_chunk_remaining[OF sym])
  done

declare chunk_loop.simps [simp del]

definition readInChunks :: "(nat \<Rightarrow> sel_env) \<Rightarrow> reader \<Rightarrow> chunkReaderConfig \<Rightarrow> run" where
  "readInChunks ctx reader config =
     chunk_loop config ctx 0 (NewReaderSize reader (chunkSize config))"

definition createReaderFn :: "chunkReaderConfig \<Rightarrow> (nat \<Rightarrow> sel_env) \<Rightarrow> reader \<Rightarrow> run" where
  "createReaderFn config = (\<lambda>ctx reader. readInChunks ctx reader config)"

definition NewChunkReader :: "ConfigOption list \<Rightarrow> (nat \<Rightarrow> sel_env) \<Rightarrow> reader \<Rightarrow> run" where
  "NewChunkReader opts = createReaderFn (applyOptions opts)"


definition panics :: "chunkReaderConfig \<Rightarrow> bool" where
  "panics config =
     (totalSize config < 0 \<or> chunkSize config < 0 \<or> totalSize config < chunkSize config)"

lemma chunk_loop_panic:
  "panics config \<Longrightarrow>
   chunk_loop config ctx sent b = \<lparr>emitted = [], logged = [], status = Panicked\<rparr>"
  by (simp add: chunk_loop.simps[of config ctx sent b] panics_def)

lemma chunk_loop_stop:
  "\<not> panics config \<Longrightarrow> read_chunk config b = (n, e, cr0, r) \<Longrightarrow> classify e n cr0 = None \<Longrightarrow>
   chunk_loop config ctx sent b = \<lparr>emitted = [], logged = [], status = Closed\<rparr>"
  by (simp add: chunk_loop.simps[of config ctx sent b] panics_def)

lemma chunk_loop_cancelled:
  "\<not> panics config \<Longrightarrow> read_chunk config b = (n, e, cr0, r) \<Longrightarrow>
   classify e n cr0 = Some (cr, lg) \<Longrightarrow> select_send (ctx sent) sent = Cancelled \<Longrightarrow>
   chunk_loop config ctx sent b = \<lparr>emitted = [], logged = lg, status = Closed\<rparr>"
  by (simp add: chunk_loop.simps[of config ctx sent b] panics_def)

lemma chunk_loop_blocks:
  "\<not> panics config \<Longrightarrow> read_chunk config b = (n, e, cr0, r) \<Longrightarrow>
   classify e n cr0 = Some (cr, lg) \<Longrightarrow> select_send (ctx sent) sent = Blocks \<Longrightarrow>
   chunk_loop config ctx sent b = \<lparr>emitted = [], logged = lg, status = Blocked\<rparr>"
  by (simp add: chunk_loop.simps[of config ctx sent b] panics_def)

lemma chunk_loop_last:
  "\<not> panics config \<Longrightarrow> read_chunk config b = (n, e, cr0, r) \<Longrightarrow>
   classify e n cr0 = Some (cr, lg) \<Longrightarrow> select_send (ctx sent) sent = Sent \<Longrightarrow>
   e \<noteq> None \<Longrightarrow>
   chunk_loop config ctx sent b = \<lparr>emitted = [cr], logged = lg, status = Closed\<rparr>"
  by (simp add: chunk_loop.simps[of config ctx sent b] panics_def)

lemma chunk_loop_next:
  "\<not> panics config \<Longrightarrow> read_chunk config b = (n, None, cr0, r) \<Longrightarrow>
   classify None n cr0 = Some (cr, lg) \<Longrightarrow> select_send (ctx sent) sent = Sent \<Longrightarrow>
   chunk_loop config ctx sent b =
     (chunk_loop config ctx (Suc sent) r)
       \<lparr>emitted := cr # emitted (chunk_loop config ctx (Suc sent) r),
        logged := lg @ logged (chunk_loop config ctx (Suc sent) r)\<rparr>"
  by (simp add: chunk_loop.simps[of config ctx sent b] panics_def Let_def)

lemma chunk_loop_induct2 [case_names step]:
  assumes step: "\<And>sent b.
     (\<And>n cr0 r cr lg. \<not> panics config \<Longrightarrow> read_chunk config b = (n, None, cr0, r) \<Longrightarrow>
        classify None n cr0 = Some (cr, lg) \<Longrightarrow> select_send (ctx sent) sent = Sent \<Longrightarrow>
        P (Suc sent) r) \<Longrightarrow> P sent b"
  shows "P sent b"
proof -
  have "c = config \<longrightarrow> x = ctx \<longrightarrow> P sent b" for c x
  proof (induction c x sent b rule: chunk_loop.induct)
    case (1 c x sent b)
    show ?case
    proof (intro impI)
      assume eq: "c = config" "x = ctx"
      show "P sent b"
      proof (rule step)
        fix n cr0 r cr lg
        assume a: "\<not> panics config" "read_chunk config b = (n, None, cr0, r)"
          "classify None n cr0 = Some (cr, lg)" "select_send (ctx sent) sent = Sent"
        show "P (Suc sent) r"
          using a eq "1.IH"
          by (simp add: panics_def)
      qed
    qed
  qed
  then show ?thesis by simp
qed

lemma read_chunk_shape:
  assumes "read_chunk config b = (n, e, cr0, r)"
  shows "err cr0 = None" and "n \<le> length (data cr0)" and "n = 0 \<Longrightarrow> data cr0 = [] \<and> data_cap cr0 = 0"
  using assms
  by (auto simp: read_chunk_def Let_def split: prod.splits if_splits)

lemma classify_nonempty:
  assumes "classify e n cr0 = Some (cr, lg)" and "n \<le> length (data cr0)"
  shows "data cr \<noteq> [] \<or> err cr \<noteq> None"
  using assms
  by (auto simp: classify_def isErrAndNotEOF_def split: if_splits option.splits)

lemma chunk_loop_cases:
  obtains
    (panic) "panics config"
  | (stop) n e cr0 r where "\<not> panics config" "read_chunk config b = (n, e, cr0, r)"
      "classify e n cr0 = None"
  | (cancelled) n e cr0 r cr lg where "\<not> panics config" "read_chunk config b = (n, e, cr0, r)"
      "classify e n cr0 = Some (cr, lg)" "select_send (ctx sent) sent = Cancelled"
  | (blocks) n e cr0 r cr lg where "\<not> panics config" "read_chunk config b = (n, e, cr0, r)"
      "classify e n cr0 = Some (cr, lg)" "select_send (ctx sent) sent = Blocks"
  | (last) n e cr0 r cr lg where "\<not> panics config" "read_chunk config b = (n, e, cr0, r)"
      "classify e n cr0 = Some (cr, lg)" "select_send (ctx sent) sent = Sent" "e \<noteq> None"
  | (continue) n cr0 r cr lg where "\<not> panics config" "read_chunk config b = (n, None, cr0, r)"
      "classify None n cr0 = Some (cr, lg)" "select_send (ctx sent) sent = Sent"
proof -
  obtain n e cr0 r where R: "read_chunk config b = (n, e, cr0, r)"
    by (cases "read_chunk config b") auto
  show ?thesis
  proof (cases "panics config")
    case True
    then show ?thesis by (rule panic)
  next
    case np: False
    show ?thesis
    proof (cases "classify e n cr0")
      case None
      with np R show ?thesis by (rule stop)
    next
      case (Some p)
      obtain cr lg where p: "p = (cr, lg)" by (cases p) auto
      note C = Some[unfolded p]
      show ?thesis
      proof (cases "select_send (ctx sent) sent")
        case Sent
        show ?thesis
        proof (cases "e = None")
          case True
          with np R C Sent show ?thesis by (auto intro: continue)
        next
          case False
          with np R C Sent show ?thesis by (auto intro: last)
        qed
      next
        case Cancelled
        with np R C show ?thesis by (auto intro: cancelled)
      next
        case Blocks
        with np R C show ?thesis by (auto intro: blocks)
      qed
    qed
  qed
qed

lemma chunk_loop_nonempty:
  "cr \<in> set (emitted (chunk_loop config ctx sent b)) \<Longrightarrow> data cr \<noteq> [] \<or> err cr \<noteq> None"
proof (induction sent b rule: chunk_loop_induct2[where config=config and ctx=ctx])
  case (step sent b)
  show ?case
  proof (cases rule: chunk_loop_cases[where config=config and b=b and ctx=ctx and sent=sent])
    case panic
    with step.prems show ?thesis by (simp add: chunk_loop_panic)
  next
    case (stop n e cr0 r)
    with step.prems show ?thesis by (simp add: chunk_loop_stop)
  next
    case (cancelled n e cr0 r cr' lg)
    with step.prems show ?thesis by (simp add: chunk_loop_cancelled)
  next
    case (blocks n e cr0 r cr' lg)
    with step.prems show ?thesis by (simp add: chunk_loop_blocks)
  next
    case (last n e cr0 r cr' lg)
    with step.prems have "cr = cr'" by (simp add: chunk_loop_last)
    with classify_nonempty[OF last(3) read_chunk_shape(2)[OF last(2)]] show ?thesis by simp
  next
    case (continue n cr0 r cr' lg)
    with step.prems have "cr = cr' \<or> cr \<in> set (emitted (chunk_loop config ctx (Suc sent) r))"
      by (simp add: chunk_loop_next)
    then show ?thesis
    proof
      assume "cr = cr'"
      with classify_nonempty[OF continue(3) read_chunk_shape(2)[OF continue(2)]] show ?thesis by simp
    next
      assume "cr \<in> set (emitted (chunk_loop config ctx (Suc sent) r))"
      with step.IH[OF continue] show ?thesis .
    qed
  qed
qed


lemma read_chunk_cap:
  "read_chunk config b = (n, e, cr0, r) \<Longrightarrow> int (length (data cr0)) < smallChunkThreshold config \<Longrightarrow>
   data_cap cr0 = length (data cr0)"
  by (auto simp: read_chunk_def Let_def split: prod.splits if_splits)

lemma read_chunk_of_ReadFull:
  assumes "io_ReadFull (nat (chunkSize config)) b = (core, e, r1)"
  shows "\<exists>cr0 r peekData. read_chunk config b = (length core, e, cr0, r)
           \<and> data cr0 = core @ peekData \<and> err cr0 = None \<and> (core = [] \<longrightarrow> peekData = [] \<and> data_cap cr0 = 0)"
  using assms
  by (auto simp: read_chunk_def Let_def split: prod.splits)

lemma classify_keeps:
  "classify e n cr0 = Some (cr, lg) \<Longrightarrow> data cr = data cr0 \<and> data_cap cr = data_cap cr0"
  by (auto simp: classify_def split: if_splits)

lemma classify_err:
  "classify e n cr0 = Some (cr, lg) \<Longrightarrow>
   (if isErrAndNotEOF e then err cr = e \<and> lg = (case e of None \<Rightarrow> [] | Some x \<Rightarrow> [x])
    else err cr = None \<and> lg = [])"
  by (auto simp: classify_def split: if_splits)

lemma emitted_all:
  assumes Q: "\<And>b n e cr0 r cr lg. read_chunk config b = (n, e, cr0, r) \<Longrightarrow>
                 classify e n cr0 = Some (cr, lg) \<Longrightarrow> Q cr"
  shows "cr \<in> set (emitted (chunk_loop config ctx sent b)) \<Longrightarrow> Q cr"
proof (induction sent b rule: chunk_loop_induct2[where config=config and ctx=ctx])
  case (step sent b)
  note mem = step.prems
  show ?case
  proof (cases rule: chunk_loop_cases[where config=config and b=b and ctx=ctx and sent=sent])
    case panic
    with mem show ?thesis by (simp add: chunk_loop_panic)
  next
    case (stop n e cr0 r)
    with mem show ?thesis by (simp add: chunk_loop_stop)
  next
    case (cancelled n e cr0 r cr' lg)
    with mem show ?thesis by (simp add: chunk_loop_cancelled)
  next
    case (blocks n e cr0 r cr' lg)
    with mem show ?thesis by (simp add: chunk_loop_blocks)
  next
    case (last n e cr0 r cr' lg)
    with mem have "cr = cr'" by (simp add: chunk_loop_last)
    with Q[OF last(2,3)] show ?thesis by simp
  next
    case (continue n cr0 r cr' lg)
    with mem have "cr = cr' \<or> cr \<in> set (emitted (chunk_loop config ctx (Suc sent) r))"
      by (simp add: chunk_loop_next)
    then show ?thesis
    proof
      assume "cr = cr'"
      with Q[OF continue(2,3)] show ?thesis by simp
    next
      assume "cr \<in> set (emitted (chunk_loop config ctx (Suc sent) r))"
      with step.IH[OF continue] show ?thesis .
    qed
  qed
qed

lemma chunk_loop_reportable:
  assumes "\<not> panics config" and "read_chunk config b = (n, Some x, cr0, r)"
    and "isErrAndNotEOF (Some x)"
  shows "chunk_loop config ctx sent b =
           \<lparr>emitted = (if select_send (ctx sent) sent = Sent then [cr0\<lparr>err := Some x\<rparr>] else []),
            logged = [x],
            status = (if select_send (ctx sent) sent = Blocks then Blocked else Closed)\<rparr>"
proof -
  have C: "classify (Some x) n cr0 = Some (cr0\<lparr>err := Some x\<rparr>, [x])"
    using assms(3) by (simp add: classify_def)
  show ?thesis
    by (cases "select_send (ctx sent) sent")
       (simp_all add: chunk_loop_last[OF assms(1,2) C] chunk_loop_cancelled[OF assms(1,2) C]
          chunk_loop_blocks[OF assms(1,2) C])
qed

lemma chunk_loop_clean_end:
  assumes "\<not> panics config" and "read_chunk config b = (n, Some x, cr0, r)"
    and "\<not> isErrAndNotEOF (Some x)"
  shows "chunk_loop config ctx sent b =
           \<lparr>emitted = (if 0 < n \<and> select_send (ctx sent) sent = Sent then [cr0\<lparr>err := None\<rparr>] else []),
            logged = [],
            status = (if 0 < n \<and> select_send (ctx sent) sent = Blocks then Blocked else Closed)\<rparr>"
proof (cases "0 < n")
  case False
  then have "classify (Some x) n cr0 = None" using assms(3) by (simp add: classify_def)
  with False show ?thesis by (simp add: chunk_loop_stop[OF assms(1,2)])
next
  case True
  then have C: "classify (Some x) n cr0 = Some (cr0\<lparr>err := None\<rparr>, [])"
    using assms(3) by (simp add: classify_def)
  from True show ?thesis
    by (cases "select_send (ctx sent) sent")
       (simp_all add: chunk_loop_last[OF assms(1,2) C] chunk_loop_cancelled[OF assms(1,2) C]
          chunk_loop_blocks[OF assms(1,2) C])
qed

lemma isErrAndNotEOF_Some:
  "isErrAndNotEOF (Some x) = (\<not> errors_Is x EOF \<and> \<not> errors_Is x ErrUnexpectedEOF)"
  by (simp add: isErrAndNotEOF_def)


lemma errored_is_last:
  "i < length (emitted (chunk_loop config ctx sent b)) \<Longrightarrow>
   err (emitted (chunk_loop config ctx sent b) ! i) \<noteq> None \<Longrightarrow>
   Suc i = length (emitted (chunk_loop config ctx sent b))"
proof (induction sent b arbitrary: i rule: chunk_loop_induct2[where config=config and ctx=ctx])
  case (step sent b)
  show ?case
  proof (cases rule: chunk_loop_cases[where config=config and b=b and ctx=ctx and sent=sent])
    case panic
    with step.prems show ?thesis by (simp add: chunk_loop_panic)
  next
    case (stop n e cr0 r)
    with step.prems show ?thesis by (simp add: chunk_loop_stop)
  next
    case (cancelled n e cr0 r cr' lg)
    with step.prems show ?thesis by (simp add: chunk_loop_cancelled)
  next
    case (blocks n e cr0 r cr' lg)
    with step.prems show ?thesis by (simp add: chunk_loop_blocks)
  next
    case (last n e cr0 r cr' lg)
    with step.prems show ?thesis by (simp add: chunk_loop_last)
  next
    case (continue n cr0 r cr' lg)
    have nil: "err cr' = None"
      using classify_err[OF continue(3)] by (simp add: isErrAndNotEOF_def)
    note eq = chunk_loop_next[where ctx=ctx and sent=sent, OF continue]
    show ?thesis
    proof (cases i)
      case 0
      with step.prems(2) nil show ?thesis by (simp add: eq)
    next
      case (Suc j)
      with step.prems have "j < length (emitted (chunk_loop config ctx (Suc sent) r))"
        and "err (emitted (chunk_loop config ctx (Suc sent) r) ! j) \<noteq> None"
        by (simp_all add: eq)
      from step.IH[OF continue this] Suc show ?thesis by (simp add: eq)
    qed
  qed
qed

lemma logged_once:
  "length (logged (chunk_loop config ctx sent b)) \<le> 1"
proof (induction sent b rule: chunk_loop_induct2[where config=config and ctx=ctx])
  case (step sent b)
  show ?case
  proof (cases rule: chunk_loop_cases[where config=config and b=b and ctx=ctx and sent=sent])
    case panic
    then show ?thesis by (simp add: chunk_loop_panic)
  next
    case (stop n e cr0 r)
    then show ?thesis by (simp add: chunk_loop_stop)
  next
    case (cancelled n e cr0 r cr' lg)
    with classify_err[OF cancelled(3)] show ?thesis
      by (auto simp: chunk_loop_cancelled split: if_splits option.splits)
  next
    case (blocks n e cr0 r cr' lg)
    with classify_err[OF blocks(3)] show ?thesis
      by (auto simp: chunk_loop_blocks split: if_splits option.splits)
  next
    case (last n e cr0 r cr' lg)
    with classify_err[OF last(3)] show ?thesis
      by (auto simp: chunk_loop_last split: if_splits option.splits)
  next
    case (continue n cr0 r cr' lg)
    have "lg = []"
      using classify_err[OF continue(3)] by (simp add: isErrAndNotEOF_def)
    with step.IH[OF continue] show ?thesis by (simp add: chunk_loop_next[where ctx=ctx and sent=sent, OF continue])
  qed
qed

lemma attached_logged:
  "cr \<in> set (emitted (chunk_loop config ctx sent b)) \<Longrightarrow> err cr = Some x \<Longrightarrow>
   logged (chunk_loop config ctx sent b) = [x]"
proof (induction sent b rule: chunk_loop_induct2[where config=config and ctx=ctx])
  case (step sent b)
  show ?case
  proof (cases rule: chunk_loop_cases[where config=config and b=b and ctx=ctx and sent=sent])
    case panic
    with step.prems show ?thesis by (simp add: chunk_loop_panic)
  next
    case (stop n e cr0 r)
    with step.prems show ?thesis by (simp add: chunk_loop_stop)
  next
    case (cancelled n e cr0 r cr' lg)
    with step.prems show ?thesis by (simp add: chunk_loop_cancelled)
  next
    case (blocks n e cr0 r cr' lg)
    with step.prems show ?thesis by (simp add: chunk_loop_blocks)
  next
    case (last n e cr0 r cr' lg)
    with step.prems classify_err[OF last(3)] show ?thesis
      by (auto simp: chunk_loop_last split: if_splits)
  next
    case (continue n cr0 r cr' lg)
    have nil: "err cr' = None" "lg = []"
      using classify_err[OF continue(3)] by (simp_all add: isErrAndNotEOF_def)
    with step.prems have "cr \<in> set (emitted (chunk_loop config ctx (Suc sent) r))"
      by (auto simp: chunk_loop_next[where ctx=ctx and sent=sent, OF continue])
    from step.IH[OF continue this step.prems(2)] nil show ?thesis
      by (simp add: chunk_loop_next[where ctx=ctx and sent=sent, OF continue])
  qed
qed




section \<open>Sources that are read without failure\<close>

text \<open>
  A finite source that is read without failure: no \<open>Read\<close> returns an error while bytes
  are left, and the end of the stream is \<open>io.EOF\<close>, returned with the last bytes or by the
  reads after them. A \<open>Read\<close> may return fewer bytes than asked for, and it may return no
  bytes and no error, but not 100 times in a row: that is where \<open>bufio\<close> gives up with
  \<open>io.ErrNoProgress\<close>.
\<close>

definition empty_read :: "byte list \<times> error option \<Rightarrow> bool" where
  "empty_read ev = (fst ev = [] \<and> snd ev = None)"

fun clean_script :: "(byte list \<times> error option) list \<Rightarrow> bool" where
  "clean_script [] = True"
| "clean_script ((bs, e) # rest) =
     ((e = None \<or> (e = Some EOF \<and> rest = []))
      \<and> length (takeWhile empty_read ((bs, e) # rest)) < 100
      \<and> clean_script rest)"

definition clean_source :: "reader \<Rightarrow> bool" where
  "clean_source r = (final r = EOF \<and> clean_script (script r))"

text \<open>The bytes of a source, and the bytes a \<open>bufio.Reader\<close> has still to hand out.\<close>

definition contents :: "reader \<Rightarrow> byte list" where
  "contents r = concat (map fst (script r))"

definition stream :: "bufio_Reader \<Rightarrow> byte list" where
  "stream b = buffered b @ contents (rd b)"

definition clean_state :: "bufio_Reader \<Rightarrow> bool" where
  "clean_state b =
     (clean_source (rd b) \<and> length (buffered b) \<le> buf_len b \<and> 0 < buf_len b
      \<and> (berr b = None \<or> (berr b = Some EOF \<and> script (rd b) = [])))"

lemma clean_script_quiet: "clean_script evs \<Longrightarrow> length (takeWhile empty_read evs) < 100"
  by (cases evs) auto

lemma rd_Read_clean:
  assumes "clean_source r" and "rd_Read k r = (bs, e, r')" and "0 < k"
  shows "clean_source r'" and "contents r = bs @ contents r'" and "length bs \<le> k"
    and "e \<noteq> None \<Longrightarrow> e = Some EOF \<and> script r' = []"
    and "bs = [] \<Longrightarrow> e = None \<Longrightarrow> script r = ([], None) # script r'"
  using assms
  by (cases "script r";
      auto simp: clean_source_def rd_Read_def contents_def empty_read_def split: if_splits)+

lemma bufio_Read_clean:
  assumes cs: "clean_state b" and R: "bufio_Read k b = (bs, e, b')" and k: "0 < k"
  shows "clean_state b' \<and> stream b = bs @ stream b' \<and> length bs \<le> k \<and> buf_len b' = buf_len b
         \<and> (e \<noteq> None \<longrightarrow> e = Some EOF \<and> stream b' = [])"
proof (cases "buffered b = []")
  case False
  with cs R k show ?thesis
    by (auto simp: bufio_Read_def clean_state_def stream_def)
next
  case emp: True
  show ?thesis
  proof (cases "berr b = None")
    case False
    with cs R k emp show ?thesis
      by (auto simp: bufio_Read_def readErr_def clean_state_def stream_def contents_def)
  next
    case noerr: True
    from cs have src: "clean_source (rd b)" and pos: "0 < buf_len b"
      by (simp_all add: clean_state_def)
    show ?thesis
    proof (cases "buf_len b \<le> k")
      case True
      obtain cs' e' r' where RR: "rd_Read k (rd b) = (cs', e', r')"
        by (cases "rd_Read k (rd b)") auto
      from R emp noerr True RR k have eq: "bs = cs'" "e = e'" "b' = b\<lparr>rd := r', berr := None\<rparr>"
        by (auto simp: bufio_Read_def readErr_def)
      from rd_Read_clean[OF src RR k] emp pos show ?thesis
        unfolding eq by (auto simp: clean_state_def stream_def contents_def)
    next
      case False
      obtain cs' e' r' where RR: "rd_Read (buf_len b) (rd b) = (cs', e', r')"
        by (cases "rd_Read (buf_len b) (rd b)") auto
      note rc = rd_Read_clean[OF src RR pos]
      show ?thesis
      proof (cases "cs' = []")
        case True
        with R emp noerr False RR k have eq: "bs = []" "e = e'" "b' = b\<lparr>rd := r', berr := None\<rparr>"
          by (auto simp: bufio_Read_def readErr_def)
        from rc True emp pos show ?thesis
          unfolding eq by (auto simp: clean_state_def stream_def contents_def)
      next
        case ne: False
        with R emp noerr False RR k have eq: "bs = take k cs'" "e = None"
          "b' = b\<lparr>buffered := drop k cs', rd := r', berr := e'\<rparr>"
          by (auto simp: bufio_Read_def readErr_def)
        from rc ne emp pos k show ?thesis
          unfolding eq by (auto simp: clean_state_def stream_def)
      qed
    qed
  qed
qed


lemma read_loop_clean:
  assumes "clean_state b" and "read_loop m acc b = (out, e, b')" and "length acc \<le> m"
  shows "clean_state b' \<and> acc @ stream b = out @ stream b' \<and> length out \<le> m
         \<and> buf_len b' = buf_len b \<and> (length out < m \<longrightarrow> e = Some EOF \<and> stream b' = [])"
  using assms
proof (induction m acc b rule: read_loop.induct)
  case (1 m acc b)
  show ?case
  proof (cases "length acc < m")
    case False
    with "1.prems" show ?thesis by (simp add: read_loop.simps[of m acc b])
  next
    case True
    obtain cs e1 b1 where R: "bufio_Read (m - length acc) b = (cs, e1, b1)"
      by (cases "bufio_Read (m - length acc) b") auto
    from True have k: "0 < m - length acc" by simp
    note step = bufio_Read_clean[OF "1.prems"(1) R k]
    show ?thesis
    proof (cases "e1 = None")
      case False
      with True R "1.prems"(2) have "out = acc @ cs" "e = e1" "b' = b1"
        by (simp_all add: read_loop.simps[of m acc b])
      with step False True show ?thesis by auto
    next
      case e1: True
      with True R "1.prems"(2) have rl: "read_loop m (acc @ cs) b1 = (out, e, b')"
        by (simp add: read_loop.simps[of m acc b])
      from step True have len: "length (acc @ cs) \<le> m" by auto
      from step have c1: "clean_state b1" by simp
      from "1.IH"[OF True R[symmetric] refl e1 c1 rl len] step show ?thesis by simp
    qed
  qed
qed

lemma io_ReadFull_clean:
  assumes cs: "clean_state b" and R: "io_ReadFull m b = (out, e, b')"
  shows "out = take m (stream b)" and "stream b' = drop m (stream b)" and "clean_state b'"
    and "buf_len b' = buf_len b"
    and "e = (if m \<le> length (stream b) then None
              else if stream b = [] then Some EOF else Some ErrUnexpectedEOF)"
proof -
  obtain e0 where rl: "read_loop m [] b = (out, e0, b')"
    and e: "e = (if m \<le> length out then None
                 else if 0 < length out \<and> e0 = Some EOF then Some ErrUnexpectedEOF else e0)"
    using R by (auto simp: io_ReadFull_def split: prod.splits)
  from read_loop_clean[OF cs rl] have
    c: "clean_state b'" and eq: "stream b = out @ stream b'" and le: "length out \<le> m"
    and bl: "buf_len b' = buf_len b"
    and short: "length out < m \<longrightarrow> e0 = Some EOF \<and> stream b' = []"
    by simp_all
  show "clean_state b'" by (rule c)
  show "buf_len b' = buf_len b" by (rule bl)
  show o: "out = take m (stream b)"
  proof (cases "length out < m")
    case True
    with short eq show ?thesis by simp
  next
    case False
    with le have "length out = m" by simp
    with eq show ?thesis by simp
  qed
  show "stream b' = drop m (stream b)"
  proof (cases "length out < m")
    case True
    with short eq show ?thesis by simp
  next
    case False
    with le have "length out = m" by simp
    with eq show ?thesis by simp
  qed
  show "e = (if m \<le> length (stream b) then None
              else if stream b = [] then Some EOF else Some ErrUnexpectedEOF)"
  proof (cases "m \<le> length (stream b)")
    case True
    with o e show ?thesis by simp
  next
    case False
    with o have "length out < m" "out = stream b" by simp_all
    with short e False show ?thesis by auto
  qed
qed

lemma fill_tries_clean:
  assumes "clean_state b" and "length (buffered b) < buf_len b" and "berr b = None"
    and "length (takeWhile empty_read (script (rd b))) < i"
  shows "clean_state (fill_tries i b) \<and> stream (fill_tries i b) = stream b
         \<and> buf_len (fill_tries i b) = buf_len b"
  using assms
proof (induction i arbitrary: b)
  case 0
  then show ?case by simp
next
  case (Suc i)
  let ?k = "buf_len b - length (buffered b)"
  obtain bs e r' where R: "rd_Read ?k (rd b) = (bs, e, r')"
    by (cases "rd_Read ?k (rd b)") auto
  from Suc.prems(2) have k: "0 < ?k" by simp
  from Suc.prems(1) have src: "clean_source (rd b)" by (simp add: clean_state_def)
  note rc = rd_Read_clean[OF src R k]
  let ?b1 = "b\<lparr>buffered := buffered b @ bs, rd := r'\<rparr>"
  show ?case
  proof (cases "e \<noteq> None \<or> bs \<noteq> []")
    case True
    then have f: "fill_tries (Suc i) b = (if e \<noteq> None then ?b1\<lparr>berr := e\<rparr> else ?b1)"
      using R by (auto simp: Let_def)
    from rc Suc.prems(1,2,3) show ?thesis
      unfolding f by (auto simp: clean_state_def stream_def)
  next
    case False
    then have emp: "bs = []" "e = None" by simp_all
    then have f: "fill_tries (Suc i) b = fill_tries i ?b1" using R by (simp add: Let_def)
    from rc(5)[OF emp] have sc: "script (rd b) = ([], None) # script r'" .
    from rc(1,2) emp Suc.prems(1,2,3) have c1: "clean_state ?b1" "length (buffered ?b1) < buf_len ?b1"
      "berr ?b1 = None" "stream ?b1 = stream b" "buf_len ?b1 = buf_len b"
      by (auto simp: clean_state_def stream_def)
    have "empty_read ([], None)" by (simp add: empty_read_def)
    with Suc.prems(4) sc have q: "length (takeWhile empty_read (script (rd ?b1))) < i"
      by simp
    from Suc.IH[OF c1(1,2,3) q] c1(4,5) show ?thesis unfolding f by simp
  qed
qed

lemma fill_clean:
  assumes cs: "clean_state b" and room: "length (buffered b) < buf_len b" and ne: "berr b = None"
  shows "clean_state (fill b) \<and> stream (fill b) = stream b \<and> buf_len (fill b) = buf_len b"
proof -
  from cs have "clean_script (script (rd b))" by (simp add: clean_state_def clean_source_def)
  then have "length (takeWhile empty_read (script (rd b))) < 100" by (rule clean_script_quiet)
  from fill_tries_clean[OF cs room ne this] show ?thesis by (simp add: fill_def)
qed

lemma peek_fill_clean:
  assumes "clean_state b"
  shows "clean_state (peek_fill n b) \<and> stream (peek_fill n b) = stream b
         \<and> buf_len (peek_fill n b) = buf_len b
         \<and> (n \<le> length (buffered (peek_fill n b)) \<or> buf_len b \<le> length (buffered (peek_fill n b))
            \<or> berr (peek_fill n b) \<noteq> None)"
  using assms
proof (induction n b rule: peek_fill.induct)
  case (1 n b)
  show ?case
  proof (cases "length (buffered b) < n \<and> length (buffered b) < buf_len b \<and> berr b = None")
    case False
    with "1.prems" show ?thesis by (auto simp: peek_fill.simps[of n b])
  next
    case True
    then have room: "length (buffered b) < buf_len b" and ne: "berr b = None" by simp_all
    note fc = fill_clean[OF "1.prems" room ne]
    from fc have c: "clean_state (fill b)" by simp
    from "1.IH"[OF True c] fc True show ?thesis by (simp add: peek_fill.simps[of n b])
  qed
qed

lemma clean_state_drained:
  "clean_state b \<Longrightarrow> berr b \<noteq> None \<Longrightarrow> stream b = buffered b"
  by (auto simp: clean_state_def stream_def contents_def)

lemma bufio_Peek_clean:
  assumes cs: "clean_state b" and n: "0 \<le> n" and P: "bufio_Peek n b = (p, pe, b')"
  shows "p = take (min (nat n) (buf_len b)) (stream b)" and "stream b' = stream b"
    and "clean_state b'" and "buf_len b' = buf_len b"
proof -
  let ?b1 = "peek_fill (nat n) b"
  from peek_fill_clean[OF cs, of "nat n"] have
    c1: "clean_state ?b1" and s1: "stream ?b1 = stream b" and l1: "buf_len ?b1 = buf_len b"
    and d: "nat n \<le> length (buffered ?b1) \<or> buf_len b \<le> length (buffered ?b1) \<or> berr ?b1 \<noteq> None"
    by simp_all
  from c1 l1 have le: "length (buffered ?b1) \<le> buf_len b" by (simp add: clean_state_def)
  have pre: "stream b = buffered ?b1 @ contents (rd ?b1)" using s1 by (simp add: stream_def)
  have b': "b' = ?b1 \<or> b' = ?b1\<lparr>berr := None\<rparr>"
    using P n by (auto simp: bufio_Peek_def Let_def readErr_def split: if_splits)
  then show "stream b' = stream b" using s1 by (auto simp: stream_def)
  from b' c1 show "clean_state b'" by (auto simp: clean_state_def)
  from b' l1 show "buf_len b' = buf_len b" by auto
  show "p = take (min (nat n) (buf_len b)) (stream b)"
  proof (cases "buf_len b < nat n")
    case True
    with P n l1 have p: "p = buffered ?b1" by (auto simp: bufio_Peek_def Let_def)
    from d True le have "buf_len b \<le> length (buffered ?b1) \<or> berr ?b1 \<noteq> None" by auto
    then show ?thesis
    proof
      assume "buf_len b \<le> length (buffered ?b1)"
      with le have "length (buffered ?b1) = buf_len b" by simp
      with True p pre show ?thesis by (simp add: min_def)
    next
      assume "berr ?b1 \<noteq> None"
      from clean_state_drained[OF c1 this] s1 have "stream b = buffered ?b1" by simp
      with True p le show ?thesis by (simp add: min_def)
    qed
  next
    case False
    note nle = this
    show ?thesis
    proof (cases "length (buffered ?b1) < nat n")
      case True
      with P n l1 nle have p: "p = buffered ?b1"
        by (auto simp: bufio_Peek_def Let_def readErr_def)
      from d True nle have "berr ?b1 \<noteq> None" by auto
      from clean_state_drained[OF c1 this] s1 have "stream b = buffered ?b1" by simp
      with True p nle show ?thesis by (simp add: min_def)
    next
      case False
      with P n l1 nle have p: "p = take (nat n) (buffered ?b1)"
        by (auto simp: bufio_Peek_def Let_def)
      with False nle pre show ?thesis by (simp add: min_def)
    qed
  qed
qed


text \<open>
  The configurations the data model expects: a positive chunk size, a peek size that is
  not negative, and their sum as total size.
\<close>

definition well_formed :: "chunkReaderConfig \<Rightarrow> bool" where
  "well_formed config =
     (0 < chunkSize config \<and> 0 \<le> peekSize config
      \<and> totalSize config = chunkSize config + peekSize config)"

text \<open>
  The configurations built from the two public options are well formed when the sizes are
  in that range and their sum is a Go \<open>int\<close>; the default configuration is one of them.
\<close>

lemma applyOptions_well_formed:
  assumes "0 < C" and "0 \<le> P" and "C + P < 2 ^ 63"
  shows "well_formed (applyOptions [WithChunkSize C, WithPeekSize P])"
proof -
  from assms have "(C + P + 2 ^ 63) mod 2 ^ 64 = C + P + 2 ^ 63"
    by (intro mod_pos_pos_trivial) simp_all
  with assms show ?thesis
    by (simp add: well_formed_def applyOptions_def Let_def WithChunkSize_def WithPeekSize_def
        go_int_def)
qed

lemma applyOptions_default_well_formed: "well_formed (applyOptions [])"
  by (simp add: well_formed_def applyOptions_def Let_def ChunkSize_def PeekSize_def go_int_def)

lemma well_formed_no_panic: "well_formed config \<Longrightarrow> \<not> panics config"
  by (simp add: well_formed_def panics_def)

lemma read_chunk_clean:
  assumes wf: "well_formed config" and cs: "clean_state b"
    and R: "read_chunk config b = (n, e, cr0, b')"
  shows "n = min (nat (chunkSize config)) (length (stream b))"
    and "data cr0 = take (nat (chunkSize config)) (stream b)
           @ take (min (nat (peekSize config)) (buf_len b)) (drop (nat (chunkSize config)) (stream b))"
    and "stream b' = drop (nat (chunkSize config)) (stream b)"
    and "clean_state b'" and "buf_len b' = buf_len b"
    and "e = (if nat (chunkSize config) \<le> length (stream b) then None
              else if stream b = [] then Some EOF else Some ErrUnexpectedEOF)"
proof -
  let ?C = "nat (chunkSize config)"
  obtain core e1 r1 where F: "io_ReadFull ?C b = (core, e1, r1)"
    by (cases "io_ReadFull ?C b") auto
  note f = io_ReadFull_clean[OF cs F]
  have n: "n = length core" and e: "e = e1"
    using R F by (auto simp: read_chunk_def Let_def split: prod.splits if_splits)
  show "n = min ?C (length (stream b))" using n f(1) by (simp add: min.commute)
  show "e = (if ?C \<le> length (stream b) then None
              else if stream b = [] then Some EOF else Some ErrUnexpectedEOF)"
    using e f(5) by simp
  have all: "data cr0 = take ?C (stream b) @ take (min (nat (peekSize config)) (buf_len b)) (drop ?C (stream b))
          \<and> stream b' = drop ?C (stream b) \<and> clean_state b' \<and> buf_len b' = buf_len b"
    proof (cases "core = []")
      case True
      with R F have "data cr0 = []" "b' = r1"
        by (auto simp: read_chunk_def Let_def)
      moreover from True f(1) wf have "stream b = []" by (simp add: well_formed_def)
      ultimately show ?thesis using f by simp
    next
      case False
      let ?ask = "totalSize config - int (length core)"
      obtain p pe r2 where P: "bufio_Peek ?ask r1 = (p, pe, r2)"
        by (cases "bufio_Peek ?ask r1") auto
      from f(1) have lc: "length core \<le> ?C" by simp
      with wf have ask: "0 \<le> ?ask" unfolding well_formed_def by linarith
      note pk = bufio_Peek_clean[OF f(3) ask P]
      from R F P False have d: "data cr0 = core @ p" and b': "b' = r2"
        by (auto simp: read_chunk_def Let_def split: if_splits)
      have "p = take (min (nat (peekSize config)) (buf_len b)) (drop ?C (stream b))"
      proof (cases "length core = ?C")
        case True
        with wf have "nat ?ask = nat (peekSize config)" by (simp add: well_formed_def)
        with pk(1) f(2,4) show ?thesis by simp
      next
        case False
        with lc f(1) have "length (stream b) < ?C" by simp
        with pk(1) f(2) show ?thesis by simp
      qed
      with d b' pk f show ?thesis by simp
    qed
  from all show "data cr0 = take ?C (stream b) @ take (min (nat (peekSize config)) (buf_len b)) (drop ?C (stream b))"
    and "stream b' = drop ?C (stream b)" and "clean_state b'" and "buf_len b' = buf_len b"
    by simp_all
qed


text \<open>
  The chunks of a byte string for chunk size \<open>C\<close> and \<open>L\<close> bytes of look-ahead: each chunk
  is the next \<open>C\<close> bytes followed by up to \<open>L\<close> of the bytes after them, and the next chunk
  starts \<open>C\<close> bytes further.
\<close>

function chunks_of :: "nat \<Rightarrow> nat \<Rightarrow> 'a list \<Rightarrow> 'a list list" where
  "chunks_of C L s =
     (if C = 0 \<or> s = [] then []
      else (take C s @ take L (drop C s)) # chunks_of C L (drop C s))"
  by pat_completeness auto
termination
  by (relation "measure (\<lambda>(C, L, s). length s)") auto

declare chunks_of.simps [simp del]

text \<open>All the \<open>select\<close>s of a run send: the context is not cancelled and the consumer keeps up.\<close>

definition all_sent :: "(nat \<Rightarrow> sel_env) \<Rightarrow> bool" where
  "all_sent ctx = (\<forall>i. select_send (ctx i) i = Sent)"

lemma chunk_loop_clean:
  assumes wf: "well_formed config" and sent: "all_sent ctx"
  shows "clean_state b \<Longrightarrow>
     map data (emitted (chunk_loop config ctx sent b))
       = chunks_of (nat (chunkSize config)) (min (nat (peekSize config)) (buf_len b)) (stream b)
     \<and> (\<forall>cr \<in> set (emitted (chunk_loop config ctx sent b)). err cr = None)
     \<and> logged (chunk_loop config ctx sent b) = []
     \<and> status (chunk_loop config ctx sent b) = Closed"
proof (induction sent b rule: chunk_loop_induct2[where config=config and ctx=ctx])
  case (step sent b)
  let ?C = "nat (chunkSize config)"
  let ?L = "min (nat (peekSize config)) (buf_len b)"
  note np = well_formed_no_panic[OF wf]
  from wf have C: "0 < ?C" by (simp add: well_formed_def)
  from sent have sel: "select_send (ctx sent) sent = Sent" by (simp add: all_sent_def)
  obtain n e cr0 r where R: "read_chunk config b = (n, e, cr0, r)"
    by (cases "read_chunk config b") auto
  note rc = read_chunk_clean[OF wf step.prems R]
  show ?case
  proof (cases "stream b = []")
    case True
    with rc have "n = 0" "e = Some EOF" using C by simp_all
    then have "classify e n cr0 = None" by (simp add: classify_def isErrAndNotEOF_def)
    from chunk_loop_stop[OF np R this, of ctx sent] True show ?thesis
      by (simp add: chunks_of.simps[of ?C ?L "[]"])
  next
    case ne: False
    with rc(1) C have n: "0 < n" by simp
    show ?thesis
    proof (cases "?C \<le> length (stream b)")
      case False
      with rc ne have e: "e = Some ErrUnexpectedEOF" by simp
      with n have cl: "classify e n cr0 = Some (cr0\<lparr>err := None\<rparr>, [])"
        by (simp add: classify_def isErrAndNotEOF_def)
      from e have "e \<noteq> None" by simp
      from chunk_loop_last[where ctx=ctx and sent=sent, OF np R cl sel this] rc(2) False ne C show ?thesis
        by (simp add: chunks_of.simps[of ?C ?L "stream b"] chunks_of.simps[of ?C ?L "[]"])
    next
      case True
      with rc have e: "e = None" by simp
      with n have cl: "classify None n cr0 = Some (cr0\<lparr>err := None\<rparr>, [])"
        by (simp add: classify_def isErrAndNotEOF_def)
      from R e have R': "read_chunk config b = (n, None, cr0, r)" by simp
      note eq = chunk_loop_next[where ctx=ctx and sent=sent, OF np R' cl sel]
      from step.IH[OF np R' cl sel rc(4)] rc(3,5) have
        ih: "map data (emitted (chunk_loop config ctx (Suc sent) r)) = chunks_of ?C ?L (drop ?C (stream b))"
          "\<forall>cr \<in> set (emitted (chunk_loop config ctx (Suc sent) r)). err cr = None"
          "logged (chunk_loop config ctx (Suc sent) r) = []"
          "status (chunk_loop config ctx (Suc sent) r) = Closed"
        by simp_all
      from ih rc(2) ne C show ?thesis
        unfolding eq by (simp add: chunks_of.simps[of ?C ?L "stream b"])
    qed
  qed
qed

lemma NewReaderSize_clean:
  "clean_source reader \<Longrightarrow> clean_state (NewReaderSize reader sz)"
  by (simp add: NewReaderSize_def clean_state_def)

lemma readInChunks_clean:
  assumes "well_formed config" and "all_sent ctx" and "clean_source reader"
  shows "map Bytes (emitted (readInChunks ctx reader config))
           = chunks_of (nat (chunkSize config))
               (min (nat (peekSize config)) (max (nat (chunkSize config)) 16)) (contents reader)"
    and "\<forall>cr \<in> set (emitted (readInChunks ctx reader config)). Error cr = None"
    and "logged (readInChunks ctx reader config) = []"
    and "status (readInChunks ctx reader config) = Closed"
proof -
  let ?b = "NewReaderSize reader (chunkSize config)"
  have bl: "buf_len ?b = max (nat (chunkSize config)) 16" and st: "stream ?b = contents reader"
    by (auto simp: NewReaderSize_def stream_def max_def)
  have B: "Bytes = data" and E: "Error = err" by (simp_all add: fun_eq_iff Bytes_def Error_def)
  have cs: "clean_state ?b" by (rule NewReaderSize_clean[OF assms(3)])
  from chunk_loop_clean[OF assms(1,2) cs, of 0]
  show "map Bytes (emitted (readInChunks ctx reader config))
           = chunks_of (nat (chunkSize config))
               (min (nat (peekSize config)) (max (nat (chunkSize config)) 16)) (contents reader)"
    and "\<forall>cr \<in> set (emitted (readInChunks ctx reader config)). Error cr = None"
    and "logged (readInChunks ctx reader config) = []"
    and "status (readInChunks ctx reader config) = Closed"
    unfolding readInChunks_def B E bl st by simp_all
qed


text \<open>
  Putting chunks back together: the first \<open>C\<close> bytes of every chunk but the last, then the
  whole last chunk.
\<close>

fun reassemble :: "nat \<Rightarrow> 'a list list \<Rightarrow> 'a list" where
  "reassemble C [] = []"
| "reassemble C [x] = x"
| "reassemble C (x # y # ys) = take C x @ reassemble C (y # ys)"

lemma chunks_of_Nil: "chunks_of C L [] = []"
  by (simp add: chunks_of.simps[of C L "[]"])

lemma chunks_of_step:
  "0 < C \<Longrightarrow> s \<noteq> [] \<Longrightarrow>
   chunks_of C L s = (take C s @ take L (drop C s)) # chunks_of C L (drop C s)"
  by (simp add: chunks_of.simps[of C L s])

lemma chunks_of_empty_iff: "0 < C \<Longrightarrow> chunks_of C L s = [] \<longleftrightarrow> s = []"
  by (cases "s = []") (simp_all add: chunks_of_Nil chunks_of_step)

lemma reassemble_chunks_of:
  "0 < C \<Longrightarrow> reassemble C (chunks_of C L s) = s"
proof (induction C L s rule: chunks_of.induct)
  case (1 C L s)
  show ?case
  proof (cases "s = []")
    case True
    then show ?thesis by (simp add: chunks_of_Nil)
  next
    case ne: False
    note st = chunks_of_step[OF "1.prems" ne, of L]
    show ?thesis
    proof (cases "drop C s = []")
      case True
      then show ?thesis by (simp add: st chunks_of_Nil)
    next
      case False
      then obtain y ys where r: "chunks_of C L (drop C s) = y # ys"
        using chunks_of_empty_iff[OF "1.prems", of L "drop C s"]
        by (cases "chunks_of C L (drop C s)") auto
      from False have len: "C < length s" by simp
      from "1.IH" "1.prems" ne have ih: "reassemble C (chunks_of C L (drop C s)) = drop C s"
        by simp
      have "reassemble C (chunks_of C L s) = take C (take C s @ take L (drop C s)) @ reassemble C (y # ys)"
        by (simp add: st r)
      also have "\<dots> = take C s @ drop C s" using ih r len by simp
      finally show ?thesis by simp
    qed
  qed
qed

lemma length_chunks_of:
  "0 < C \<Longrightarrow> length (chunks_of C L s) = (length s + C - 1) div C"
proof (induction C L s rule: chunks_of.induct)
  case (1 C L s)
  show ?case
  proof (cases "s = []")
    case True
    with "1.prems" show ?thesis by (simp add: chunks_of_Nil)
  next
    case ne: False
    from "1.IH" "1.prems" ne
    have ih: "length (chunks_of C L (drop C s)) = (length s - C + C - 1) div C" by simp
    from ne obtain m where m: "length s = Suc m" by (cases s) auto
    have "(length s + C - 1) div C = (m + C) div C" using m by simp
    also have "\<dots> = Suc (m div C)" using "1.prems" div_add_self2[of C m] by simp
    finally have lhs: "(length s + C - 1) div C = Suc (m div C)" .
    have "(length s - C + C - 1) div C = m div C"
    proof (cases "C \<le> length s")
      case True
      with m show ?thesis by simp
    next
      case False
      with m "1.prems" have "length s - C + C - 1 = C - 1" "m < C" "C - 1 < C" by simp_all
      then show ?thesis by simp
    qed
    with ih lhs show ?thesis by (simp add: chunks_of_step[OF "1.prems" ne])
  qed
qed

lemma nth_chunks_of:
  "0 < C \<Longrightarrow> i < length (chunks_of C L s) \<Longrightarrow>
   chunks_of C L s ! i = take C (drop (i * C) s) @ take L (drop (Suc i * C) s)"
proof (induction i arbitrary: s)
  case 0
  then have "s \<noteq> []" by (auto simp: chunks_of_Nil)
  with "0.prems" show ?case by (simp add: chunks_of_step)
next
  case (Suc i)
  then have ne: "s \<noteq> []" by (auto simp: chunks_of_Nil)
  note st = chunks_of_step[OF Suc.prems(1) ne, of L]
  from Suc.prems have "i < length (chunks_of C L (drop C s))" by (simp add: st)
  from Suc.IH[OF Suc.prems(1) this] show ?case
    by (simp add: st add.commute)
qed


lemma less_length_chunks_of:
  "0 < C \<Longrightarrow> j < length (chunks_of C L s) \<longleftrightarrow> j * C < length s"
proof -
  assume C: "0 < C"
  have "j < (length s + C - 1) div C \<longleftrightarrow> Suc j \<le> (length s + C - 1) div C" by auto
  also have "\<dots> \<longleftrightarrow> Suc j * C \<le> length s + C - 1"
    using C by (simp only: less_eq_div_iff_mult_less_eq)
  also have "\<dots> \<longleftrightarrow> j * C < length s" using C by auto
  finally show ?thesis using C by (simp add: length_chunks_of)
qed

lemma take_chunk: "take C (take C x @ take L (drop C x)) = take C x"
  by (cases "length x \<le> C") simp_all

section \<open>Example inputs\<close>

definition alphabet :: "byte list" where
  "alphabet = map of_nat [97 ..< 123]"

text \<open>A context that is never cancelled and a consumer that has received every result sent.\<close>

definition undisturbed :: "nat \<Rightarrow> sel_env" where
  "undisturbed i = \<lparr>ctx_done = False, consumed = i, pick_send = True\<rparr>"

lemma all_sent_undisturbed: "all_sent undisturbed"
  by (simp add: all_sent_def select_send_def undisturbed_def channelSize_def)

section \<open>Claims\<close>

text \<open>
  C5. Every result the producer sends on the channel has a non-empty byte buffer or a
  non-nil error, for every source, configuration and environment: an empty buffer with a
  nil error is never sent.
\<close>

theorem emitted_never_empty_and_nil:
  "\<forall>cr \<in> set (emitted (readInChunks ctx reader config)). Bytes cr \<noteq> [] \<or> Error cr \<noteq> None"
  unfolding readInChunks_def Bytes_def Error_def
  using chunk_loop_nonempty by blast

theorem emitted_never_empty_and_nil_witness:
  "emitted (readInChunks undisturbed \<lparr>script = [([1, 2, 3], None), ([], Some (Other ''reset''))], final = EOF\<rparr>
              (applyOptions [WithChunkSize 2, WithPeekSize 1]))
     = [\<lparr>data = [1, 2, 3], data_cap = 3, err = None\<rparr>,
        \<lparr>data = [3], data_cap = 1, err = Some (Other ''reset'')\<rparr>]
   \<and> Bytes \<lparr>data = [3], data_cap = 1, err = Some (Other ''reset'')\<rparr> = [3]
   \<and> Error \<lparr>data = [3], data_cap = 1, err = Some (Other ''reset'')\<rparr> = Some (Other ''reset'')"
proof -
  have e: "emitted (readInChunks undisturbed \<lparr>script = [([1, 2, 3], None), ([], Some (Other ''reset''))], final = EOF\<rparr>
              (applyOptions [WithChunkSize 2, WithPeekSize 1]))
     = [\<lparr>data = [1, 2, 3], data_cap = 3, err = None\<rparr>,
        \<lparr>data = [3], data_cap = 1, err = Some (Other ''reset'')\<rparr>]"
    by code_simp
  with emitted_never_empty_and_nil[of undisturbed "\<lparr>script = [([1, 2, 3], None), ([], Some (Other ''reset''))], final = EOF\<rparr>"
      "applyOptions [WithChunkSize 2, WithPeekSize 1]"]
  show ?thesis by (simp add: Bytes_def Error_def)
qed

text \<open>Chunks of 2 bytes with 1 byte of peek; the threshold stays the default 6656.\<close>

definition cfg21 :: chunkReaderConfig where
  "cfg21 = applyOptions [WithChunkSize 2, WithPeekSize 1]"

text \<open>
  C9. Every result sent whose delivered size, the bytes of the read plus the bytes of the
  peek, is below \<open>smallChunkThreshold\<close> has a buffer whose capacity is its length: one
  iteration that reads \<open>core\<close> and peeks \<open>peekData\<close> below the threshold builds a buffer of
  exactly that size holding both parts.
\<close>

theorem small_chunk_exact_capacity:
  "(\<forall>cr \<in> set (emitted (readInChunks ctx reader config)).
      int (length (Bytes cr)) < smallChunkThreshold config \<longrightarrow> data_cap cr = length (Bytes cr))
   \<and> (io_ReadFull (nat (chunkSize config)) b = (core, e, r1) \<longrightarrow> core \<noteq> [] \<longrightarrow>
      bufio_Peek (totalSize config - int (length core)) r1 = (peekData, pe, r2) \<longrightarrow>
      int (length core) + int (length peekData) < smallChunkThreshold config \<longrightarrow>
      read_chunk config b =
        (length core, e,
         \<lparr>data = core @ peekData, data_cap = length (core @ peekData), err = None\<rparr>, r2))"
proof (intro conjI ballI impI)
  fix cr
  assume mem: "cr \<in> set (emitted (readInChunks ctx reader config))"
    and small: "int (length (Bytes cr)) < smallChunkThreshold config"
  have "int (length (data cr)) < smallChunkThreshold config \<longrightarrow> data_cap cr = length (data cr)"
  proof (rule emitted_all[where Q = "\<lambda>cr. int (length (data cr)) < smallChunkThreshold config \<longrightarrow> data_cap cr = length (data cr)"
        and config = config and ctx = ctx and sent = 0 and b = "NewReaderSize reader (chunkSize config)"])
    fix b n e cr0 r cr lg
    assume "read_chunk config b = (n, e, cr0, r)" "classify e n cr0 = Some (cr, lg)"
    then show "int (length (data cr)) < smallChunkThreshold config \<longrightarrow> data_cap cr = length (data cr)"
      using read_chunk_cap[of config b n e cr0 r] classify_keeps[of e n cr0 cr lg] by simp
  next
    from mem show "cr \<in> set (emitted (chunk_loop config ctx 0 (NewReaderSize reader (chunkSize config))))"
      by (simp add: readInChunks_def)
  qed
  with small show "data_cap cr = length (Bytes cr)" by (simp add: Bytes_def)
next
  assume "io_ReadFull (nat (chunkSize config)) b = (core, e, r1)" "core \<noteq> []"
    "bufio_Peek (totalSize config - int (length core)) r1 = (peekData, pe, r2)"
    "int (length core) + int (length peekData) < smallChunkThreshold config"
  then show "read_chunk config b =
        (length core, e,
         \<lparr>data = core @ peekData, data_cap = length (core @ peekData), err = None\<rparr>, r2)"
    by (simp add: read_chunk_def Let_def)
qed

theorem small_chunk_exact_capacity_witness:
  "emitted (readInChunks undisturbed \<lparr>script = [([1, 2, 3, 4, 5], None)], final = EOF\<rparr> cfg21)
     = [\<lparr>data = [1, 2, 3], data_cap = 3, err = None\<rparr>,
        \<lparr>data = [3, 4, 5], data_cap = 3, err = None\<rparr>,
        \<lparr>data = [5], data_cap = 1, err = None\<rparr>]
   \<and> smallChunkThreshold cfg21 = 6656
   \<and> data_cap \<lparr>data = [5], data_cap = 1, err = None\<rparr> = length (Bytes \<lparr>data = [5::byte], data_cap = 1, err = None\<rparr>)
   \<and> read_chunk cfg21 (NewReaderSize \<lparr>script = [([1, 2, 3, 4, 5], None)], final = EOF\<rparr> 2)
     = (2, None, \<lparr>data = [1, 2, 3], data_cap = 3, err = None\<rparr>,
        \<lparr>buf_len = 16, buffered = [3, 4, 5], rd = \<lparr>script = [], final = EOF\<rparr>, berr = None\<rparr>)"
proof -
  let ?src = "\<lparr>script = [([1, 2, 3, 4, 5 :: byte], None)], final = EOF\<rparr>"
  let ?r1 = "\<lparr>buf_len = 16, buffered = [3, 4, 5 :: byte], rd = \<lparr>script = [], final = EOF\<rparr>, berr = None\<rparr>"
  have em: "emitted (readInChunks undisturbed ?src cfg21)
     = [\<lparr>data = [1, 2, 3], data_cap = 3, err = None\<rparr>,
        \<lparr>data = [3, 4, 5], data_cap = 3, err = None\<rparr>,
        \<lparr>data = [5], data_cap = 1, err = None\<rparr>]"
    by code_simp
  have thr: "smallChunkThreshold cfg21 = 6656" by code_simp
  have cs: "chunkSize cfg21 = 2" "totalSize cfg21 = 3" by code_simp+
  have rf: "io_ReadFull (nat (chunkSize cfg21)) (NewReaderSize ?src 2) = ([1, 2], None, ?r1)"
    by code_simp
  have pk: "bufio_Peek (totalSize cfg21 - int (length [1, 2 :: byte])) ?r1 = ([3], None, ?r1)"
    by code_simp
  from small_chunk_exact_capacity[of undisturbed ?src cfg21 "NewReaderSize ?src 2" "[1, 2]" None ?r1
      "[3]" None ?r1] em thr rf pk
  show ?thesis by (simp add: Bytes_def)
qed


text \<open>
  C7. When the read of an iteration returns some bytes together with a reportable error,
  and the \<open>select\<close> sends, the producer sends exactly one result from there on: it starts
  with the bytes read and carries the error; then the goroutine returns and the channel is
  closed. In every run a result that carries an error is the last one sent.
\<close>

theorem partial_read_failure_is_final:
  "(\<not> panics config \<longrightarrow> io_ReadFull (nat (chunkSize config)) b = (partial, Some x, r1) \<longrightarrow>
      partial \<noteq> [] \<longrightarrow> isErrAndNotEOF (Some x) \<longrightarrow> select_send (ctx sent) sent = Sent \<longrightarrow>
      (\<exists>cr. chunk_loop config ctx sent b = \<lparr>emitted = [cr], logged = [x], status = Closed\<rparr>
            \<and> take (length partial) (Bytes cr) = partial \<and> Error cr = Some x))
   \<and> (\<forall>i < length (emitted (readInChunks ctx' reader config')).
         Error (emitted (readInChunks ctx' reader config') ! i) \<noteq> None \<longrightarrow>
         Suc i = length (emitted (readInChunks ctx' reader config')))"
proof (intro conjI impI allI)
  assume np: "\<not> panics config"
    and rf: "io_ReadFull (nat (chunkSize config)) b = (partial, Some x, r1)"
    and rep: "isErrAndNotEOF (Some x)" and sel: "select_send (ctx sent) sent = Sent"
  from read_chunk_of_ReadFull[OF rf] obtain cr0 r peekData where
    rc: "read_chunk config b = (length partial, Some x, cr0, r)" and d: "data cr0 = partial @ peekData"
    by blast
  have "chunk_loop config ctx sent b = \<lparr>emitted = [cr0\<lparr>err := Some x\<rparr>], logged = [x], status = Closed\<rparr>"
    using chunk_loop_reportable[OF np rc rep, of ctx sent] sel by simp
  with d show "\<exists>cr. chunk_loop config ctx sent b = \<lparr>emitted = [cr], logged = [x], status = Closed\<rparr>
            \<and> take (length partial) (Bytes cr) = partial \<and> Error cr = Some x"
    by (simp add: Bytes_def Error_def)
next
  fix i
  assume "i < length (emitted (readInChunks ctx' reader config'))"
    "Error (emitted (readInChunks ctx' reader config') ! i) \<noteq> None"
  then show "Suc i = length (emitted (readInChunks ctx' reader config'))"
    unfolding readInChunks_def Error_def by (rule errored_is_last)
qed

theorem partial_read_failure_is_final_witness:
  "io_ReadFull (nat (chunkSize cfg21))
      (NewReaderSize \<lparr>script = [([1], None), ([], Some (Other ''reset''))], final = EOF\<rparr> 2)
     = ([1], Some (Other ''reset''),
        \<lparr>buf_len = 16, buffered = [], rd = \<lparr>script = [], final = EOF\<rparr>, berr = None\<rparr>)
   \<and> readInChunks undisturbed \<lparr>script = [([1], None), ([], Some (Other ''reset''))], final = EOF\<rparr> cfg21
     = \<lparr>emitted = [\<lparr>data = [1], data_cap = 1, err = Some (Other ''reset'')\<rparr>],
        logged = [Other ''reset''], status = Closed\<rparr>"
proof -
  let ?src = "\<lparr>script = [([1 :: byte], None), ([], Some (Other ''reset''))], final = EOF\<rparr>"
  let ?r1 = "\<lparr>buf_len = 16, buffered = [], rd = \<lparr>script = [], final = EOF\<rparr>, berr = None\<rparr>"
  have rf: "io_ReadFull (nat (chunkSize cfg21)) (NewReaderSize ?src 2) = ([1], Some (Other ''reset''), ?r1)"
    by code_simp
  have np: "\<not> panics cfg21" by code_simp
  have rep: "isErrAndNotEOF (Some (Other ''reset''))" by code_simp
  have sel: "select_send (undisturbed 0) 0 = Sent" by code_simp
  have run: "readInChunks undisturbed ?src cfg21
     = \<lparr>emitted = [\<lparr>data = [1], data_cap = 1, err = Some (Other ''reset'')\<rparr>],
        logged = [Other ''reset''], status = Closed\<rparr>"
    by code_simp
  from partial_read_failure_is_final[of cfg21 "NewReaderSize ?src 2" "[1]" "Other ''reset''" ?r1
      undisturbed 0 undisturbed ?src cfg21] rf np rep sel run
  show ?thesis by simp
qed

text \<open>
  C10. When the read of an iteration returns no bytes and a reportable error, and the
  \<open>select\<close> sends, the producer sends one result with an empty buffer and that error,
  returns and closes the channel. Such a result does come out of the public interface: a
  source that is broken from the start gives one with the default configuration.
\<close>

theorem error_only_result:
  "(\<not> panics config \<longrightarrow> io_ReadFull (nat (chunkSize config)) b = ([], Some x, r1) \<longrightarrow>
      isErrAndNotEOF (Some x) \<longrightarrow> select_send (ctx sent) sent = Sent \<longrightarrow>
      chunk_loop config ctx sent b =
        \<lparr>emitted = [\<lparr>data = [], data_cap = 0, err = Some x\<rparr>], logged = [x], status = Closed\<rparr>)
   \<and> NewChunkReader [] undisturbed \<lparr>script = [], final = Other ''broken pipe''\<rparr>
       = \<lparr>emitted = [\<lparr>data = [], data_cap = 0, err = Some (Other ''broken pipe'')\<rparr>],
          logged = [Other ''broken pipe''], status = Closed\<rparr>"
proof (intro conjI impI)
  assume np: "\<not> panics config"
    and rf: "io_ReadFull (nat (chunkSize config)) b = ([], Some x, r1)"
    and rep: "isErrAndNotEOF (Some x)" and sel: "select_send (ctx sent) sent = Sent"
  from rf have rc: "read_chunk config b = (0, Some x, \<lparr>data = [], data_cap = 0, err = None\<rparr>, r1)"
    by (simp add: read_chunk_def)
  show "chunk_loop config ctx sent b =
        \<lparr>emitted = [\<lparr>data = [], data_cap = 0, err = Some x\<rparr>], logged = [x], status = Closed\<rparr>"
    using chunk_loop_reportable[OF np rc rep, of ctx sent] sel by simp
next
  show "NewChunkReader [] undisturbed \<lparr>script = [], final = Other ''broken pipe''\<rparr>
       = \<lparr>emitted = [\<lparr>data = [], data_cap = 0, err = Some (Other ''broken pipe'')\<rparr>],
          logged = [Other ''broken pipe''], status = Closed\<rparr>"
    by code_simp
qed

theorem error_only_result_witness:
  "io_ReadFull (nat (chunkSize cfg21))
      (NewReaderSize \<lparr>script = [([], Some (Other ''reset''))], final = EOF\<rparr> 2)
     = ([], Some (Other ''reset''),
        \<lparr>buf_len = 16, buffered = [], rd = \<lparr>script = [], final = EOF\<rparr>, berr = None\<rparr>)
   \<and> readInChunks undisturbed \<lparr>script = [([], Some (Other ''reset''))], final = EOF\<rparr> cfg21
     = \<lparr>emitted = [\<lparr>data = [], data_cap = 0, err = Some (Other ''reset'')\<rparr>],
        logged = [Other ''reset''], status = Closed\<rparr>"
proof -
  let ?src = "\<lparr>script = [([] :: byte list, Some (Other ''reset''))], final = EOF\<rparr>"
  let ?r1 = "\<lparr>buf_len = 16, buffered = [], rd = \<lparr>script = [], final = EOF\<rparr>, berr = None\<rparr>"
  have rf: "io_ReadFull (nat (chunkSize cfg21)) (NewReaderSize ?src 2) = ([], Some (Other ''reset''), ?r1)"
    by code_simp
  have np: "\<not> panics cfg21" by code_simp
  have rep: "isErrAndNotEOF (Some (Other ''reset''))" by code_simp
  have sel: "select_send (undisturbed 0) 0 = Sent" by code_simp
  have cs: "chunkSize cfg21 = 2" by code_simp
  from error_only_result[of cfg21 "NewReaderSize ?src 2" "Other ''reset''" ?r1 undisturbed 0]
    rf np rep sel cs
  show ?thesis by (simp add: readInChunks_def)
qed


text \<open>
  C6. The error of the read of an iteration is classified by \<open>isErrAndNotEOF\<close>. An error
  that is \<open>io.EOF\<close> or \<open>io.ErrUnexpectedEOF\<close> (itself or wrapped), the end of the stream
  after no bytes or after some, is never attached to a result and nothing is logged for it.
  Every other error is reportable: it is logged once and attached to the result of that
  iteration, which is sent unless the \<open>select\<close> takes the cancellation or blocks. Over a
  whole run at most one error is logged, and an error attached to a result sent is never an
  end of stream and is the one logged. (The error of \<open>Peek\<close> is dropped by the code at
  line 118 and is not a read error in this sense.)
\<close>

theorem read_errors_classified:
  "(\<forall>cr \<in> set (emitted (readInChunks ctx' reader config')). \<forall>y. Error cr = Some y \<longrightarrow>
      \<not> errors_Is y EOF \<and> \<not> errors_Is y ErrUnexpectedEOF
      \<and> logged (readInChunks ctx' reader config') = [y])
   \<and> length (logged (readInChunks ctx' reader config')) \<le> 1
   \<and> (\<not> panics config \<longrightarrow> read_chunk config b = (n, Some x, cr0, r) \<longrightarrow>
        errors_Is x EOF \<or> errors_Is x ErrUnexpectedEOF \<longrightarrow>
        \<not> isErrAndNotEOF (Some x)
        \<and> logged (chunk_loop config ctx sent b) = []
        \<and> (\<forall>cr \<in> set (emitted (chunk_loop config ctx sent b)). Error cr = None))
   \<and> (\<not> panics config \<longrightarrow> read_chunk config b = (n, Some x, cr0, r) \<longrightarrow>
        \<not> (errors_Is x EOF \<or> errors_Is x ErrUnexpectedEOF) \<longrightarrow>
        isErrAndNotEOF (Some x)
        \<and> logged (chunk_loop config ctx sent b) = [x]
        \<and> (select_send (ctx sent) sent = Sent \<longrightarrow>
             emitted (chunk_loop config ctx sent b) = [cr0\<lparr>err := Some x\<rparr>]))"
proof (intro conjI ballI allI impI)
  fix cr y
  assume mem: "cr \<in> set (emitted (readInChunks ctx' reader config'))" and e: "Error cr = Some y"
  have "\<forall>y. err cr = Some y \<longrightarrow> isErrAndNotEOF (Some y)"
  proof (rule emitted_all[where Q = "\<lambda>cr. \<forall>y. err cr = Some y \<longrightarrow> isErrAndNotEOF (Some y)"
        and config = config' and ctx = ctx' and sent = 0
        and b = "NewReaderSize reader (chunkSize config')"])
    fix b n e cr0 r cr lg
    assume "read_chunk config' b = (n, e, cr0, r)" "classify e n cr0 = Some (cr, lg)"
    then show "\<forall>y. err cr = Some y \<longrightarrow> isErrAndNotEOF (Some y)"
      using classify_err[of e n cr0 cr lg] by (auto split: if_splits)
  next
    from mem show "cr \<in> set (emitted (chunk_loop config' ctx' 0 (NewReaderSize reader (chunkSize config'))))"
      by (simp add: readInChunks_def)
  qed
  with e have rep: "isErrAndNotEOF (Some y)" by (simp add: Error_def)
  then show "\<not> errors_Is y EOF" "\<not> errors_Is y ErrUnexpectedEOF"
    by (simp_all add: isErrAndNotEOF_Some)
  from mem e show "logged (readInChunks ctx' reader config') = [y]"
    unfolding readInChunks_def Error_def by (rule attached_logged)
next
  show "length (logged (readInChunks ctx' reader config')) \<le> 1"
    unfolding readInChunks_def by (rule logged_once)
next
  assume np: "\<not> panics config" and rc: "read_chunk config b = (n, Some x, cr0, r)"
    and eof: "errors_Is x EOF \<or> errors_Is x ErrUnexpectedEOF"
  then show nr: "\<not> isErrAndNotEOF (Some x)" by (simp add: isErrAndNotEOF_Some)
  note eq = chunk_loop_clean_end[OF np rc nr, of ctx sent]
  show "logged (chunk_loop config ctx sent b) = []" by (simp add: eq)
  fix cr
  assume "cr \<in> set (emitted (chunk_loop config ctx sent b))"
  then show "Error cr = None" by (simp add: eq Error_def split: if_splits)
next
  assume np: "\<not> panics config" and rc: "read_chunk config b = (n, Some x, cr0, r)"
    and other: "\<not> (errors_Is x EOF \<or> errors_Is x ErrUnexpectedEOF)"
  then show rep: "isErrAndNotEOF (Some x)" by (simp add: isErrAndNotEOF_Some)
  note eq = chunk_loop_reportable[OF np rc rep, of ctx sent]
  show "logged (chunk_loop config ctx sent b) = [x]" by (simp add: eq)
  assume "select_send (ctx sent) sent = Sent"
  then show "emitted (chunk_loop config ctx sent b) = [cr0\<lparr>err := Some x\<rparr>]" by (simp add: eq)
qed

theorem read_errors_classified_witness:
  "read_chunk cfg21 (NewReaderSize \<lparr>script = [([7], None)], final = EOF\<rparr> 2)
     = (1, Some ErrUnexpectedEOF, \<lparr>data = [7], data_cap = 1, err = None\<rparr>,
        \<lparr>buf_len = 16, buffered = [], rd = \<lparr>script = [], final = EOF\<rparr>, berr = None\<rparr>)
   \<and> readInChunks undisturbed \<lparr>script = [([7], None)], final = EOF\<rparr> cfg21
     = \<lparr>emitted = [\<lparr>data = [7], data_cap = 1, err = None\<rparr>], logged = [], status = Closed\<rparr>
   \<and> read_chunk cfg21 (NewReaderSize \<lparr>script = [([7], None)], final = Wrap ''read tcp'' (Other ''reset'')\<rparr> 2)
     = (1, Some (Wrap ''read tcp'' (Other ''reset'')), \<lparr>data = [7], data_cap = 1, err = None\<rparr>,
        \<lparr>buf_len = 16, buffered = [], rd = \<lparr>script = [], final = Wrap ''read tcp'' (Other ''reset'')\<rparr>,
         berr = None\<rparr>)
   \<and> readInChunks undisturbed \<lparr>script = [([7], None)], final = Wrap ''read tcp'' (Other ''reset'')\<rparr> cfg21
     = \<lparr>emitted = [\<lparr>data = [7], data_cap = 1, err = Some (Wrap ''read tcp'' (Other ''reset''))\<rparr>],
        logged = [Wrap ''read tcp'' (Other ''reset'')], status = Closed\<rparr>"
proof -
  let ?good = "\<lparr>script = [([7 :: byte], None)], final = EOF\<rparr>"
  let ?bad = "\<lparr>script = [([7 :: byte], None)], final = Wrap ''read tcp'' (Other ''reset'')\<rparr>"
  have np: "\<not> panics cfg21" by code_simp
  have sel: "select_send (undisturbed 0) 0 = Sent" by code_simp
  have cs: "NewReaderSize ?good (chunkSize cfg21) = NewReaderSize ?good 2"
    "NewReaderSize ?bad (chunkSize cfg21) = NewReaderSize ?bad 2" by code_simp+
  have rc1: "read_chunk cfg21 (NewReaderSize ?good 2)
     = (1, Some ErrUnexpectedEOF, \<lparr>data = [7], data_cap = 1, err = None\<rparr>,
        \<lparr>buf_len = 16, buffered = [], rd = \<lparr>script = [], final = EOF\<rparr>, berr = None\<rparr>)"
    by code_simp
  have rc2: "read_chunk cfg21 (NewReaderSize ?bad 2)
     = (1, Some (Wrap ''read tcp'' (Other ''reset'')), \<lparr>data = [7], data_cap = 1, err = None\<rparr>,
        \<lparr>buf_len = 16, buffered = [], rd = \<lparr>script = [], final = Wrap ''read tcp'' (Other ''reset'')\<rparr>,
         berr = None\<rparr>)"
    by code_simp
  have run1: "readInChunks undisturbed ?good cfg21
     = \<lparr>emitted = [\<lparr>data = [7], data_cap = 1, err = None\<rparr>], logged = [], status = Closed\<rparr>"
    by code_simp
  have e1: "errors_Is ErrUnexpectedEOF EOF \<or> errors_Is ErrUnexpectedEOF ErrUnexpectedEOF" by simp
  have e2: "\<not> (errors_Is (Wrap ''read tcp'' (Other ''reset'')) EOF
               \<or> errors_Is (Wrap ''read tcp'' (Other ''reset'')) ErrUnexpectedEOF)" by simp
  from read_errors_classified[of undisturbed ?good cfg21 cfg21 "NewReaderSize ?good 2" 1 ErrUnexpectedEOF
      "\<lparr>data = [7], data_cap = 1, err = None\<rparr>"
      "\<lparr>buf_len = 16, buffered = [], rd = \<lparr>script = [], final = EOF\<rparr>, berr = None\<rparr>" undisturbed 0]
    np rc1 e1
  have a: "logged (chunk_loop cfg21 undisturbed 0 (NewReaderSize ?good 2)) = []" by blast
  from read_errors_classified[of undisturbed ?bad cfg21 cfg21 "NewReaderSize ?bad 2" 1
      "Wrap ''read tcp'' (Other ''reset'')" "\<lparr>data = [7], data_cap = 1, err = None\<rparr>"
      "\<lparr>buf_len = 16, buffered = [], rd = \<lparr>script = [], final = Wrap ''read tcp'' (Other ''reset'')\<rparr>,
         berr = None\<rparr>" undisturbed 0]
    np rc2 e2 sel
  have b: "logged (chunk_loop cfg21 undisturbed 0 (NewReaderSize ?bad 2)) = [Wrap ''read tcp'' (Other ''reset'')]"
    "emitted (chunk_loop cfg21 undisturbed 0 (NewReaderSize ?bad 2))
       = [\<lparr>data = [7], data_cap = 1, err = Some (Wrap ''read tcp'' (Other ''reset''))\<rparr>]"
    by simp_all
  have st: "status (readInChunks undisturbed ?bad cfg21) = Closed" by code_simp
  have run2: "readInChunks undisturbed ?bad cfg21
     = \<lparr>emitted = [\<lparr>data = [7], data_cap = 1, err = Some (Wrap ''read tcp'' (Other ''reset''))\<rparr>],
        logged = [Wrap ''read tcp'' (Other ''reset'')], status = Closed\<rparr>"
    using b st by (cases "readInChunks undisturbed ?bad cfg21") (simp add: readInChunks_def cs)
  from rc1 run1 rc2 run2 a show ?thesis by simp
qed

text \<open>
  C3. After the options are applied \<open>totalSize\<close> is the sum of the final \<open>chunkSize\<close> and
  \<open>peekSize\<close> (as Go adds them). \<open>smallChunkThreshold\<close> is not computed again: it keeps
  half of the default total, 6656, where half of the final total 13 would be 6.
\<close>

theorem applyOptions_threshold_from_defaults:
  "totalSize (applyOptions opts) = go_int (chunkSize (applyOptions opts) + peekSize (applyOptions opts))
   \<and> applyOptions [WithChunkSize 10, WithPeekSize 3]
       = \<lparr>chunkSize = 10, totalSize = 13, peekSize = 3, smallChunkThreshold = 6656\<rparr>"
proof
  show "totalSize (applyOptions opts) = go_int (chunkSize (applyOptions opts) + peekSize (applyOptions opts))"
    by (simp add: applyOptions_def Let_def)
  show "applyOptions [WithChunkSize 10, WithPeekSize 3]
       = \<lparr>chunkSize = 10, totalSize = 13, peekSize = 3, smallChunkThreshold = 6656\<rparr>"
    by (simp add: applyOptions_def Let_def WithChunkSize_def WithPeekSize_def ChunkSize_def
        PeekSize_def go_int_def)
qed






text \<open>
  Chunks of 10 bytes with 3 bytes of peek, and the 26 letters in two reads with an empty
  read between them; the second read returns \<open>io.EOF\<close> with its bytes.
\<close>

definition cfg103 :: chunkReaderConfig where
  "cfg103 = applyOptions [WithChunkSize 10, WithPeekSize 3]"

definition letters :: reader where
  "letters = \<lparr>script = [(take 7 alphabet, None), ([], None), (drop 7 alphabet, Some EOF)],
               final = EOF\<rparr>"

text \<open>
  C1. Round trip: for a well-formed configuration, a finite source that is read without
  failure and a run that is neither cancelled nor blocked, the first \<open>chunkSize\<close> bytes of
  every result but the last, followed by all the bytes of the last result, are the bytes
  of the source.
\<close>

theorem round_trip:
  "well_formed config \<Longrightarrow> all_sent ctx \<Longrightarrow> clean_source reader \<Longrightarrow>
   reassemble (nat (chunkSize config)) (map Bytes (emitted (readInChunks ctx reader config)))
     = contents reader"
proof -
  assume wf: "well_formed config" and s: "all_sent ctx" and c: "clean_source reader"
  from wf have "0 < nat (chunkSize config)" by (simp add: well_formed_def)
  then show ?thesis
    unfolding readInChunks_clean(1)[OF wf s c] by (rule reassemble_chunks_of)
qed

theorem round_trip_witness:
  "well_formed cfg103 \<and> all_sent undisturbed \<and> clean_source letters
   \<and> map Bytes (emitted (readInChunks undisturbed letters cfg103))
       = [take 13 alphabet, take 13 (drop 10 alphabet), drop 20 alphabet]
   \<and> reassemble 10 [take 13 alphabet, take 13 (drop 10 alphabet), drop 20 alphabet] = alphabet
   \<and> contents letters = alphabet"
proof -
  have wf: "well_formed cfg103" by code_simp
  have cl: "clean_source letters" by code_simp
  have em: "map Bytes (emitted (readInChunks undisturbed letters cfg103))
       = [take 13 alphabet, take 13 (drop 10 alphabet), drop 20 alphabet]" by code_simp
  have cs: "nat (chunkSize cfg103) = 10" by code_simp
  have co: "contents letters = alphabet" by code_simp
  from round_trip[OF wf all_sent_undisturbed cl] wf cl em cs co all_sent_undisturbed
  show ?thesis by simp
qed


text \<open>
  C4. For a well-formed configuration with chunk size \<open>C\<close> and peek size \<open>P\<close>, a source of
  \<open>N > C + P\<close> bytes read without failure and a run that is neither cancelled nor blocked,
  the number \<open>k\<close> of results is the ceiling of \<open>N / C\<close>: \<open>k = (N + C - 1) div C\<close>, that is
  \<open>(k - 1) * C < N \<le> k * C\<close>. Result \<open>i\<close> starts with the bytes of the source at position
  \<open>i * C\<close>, and every read but the last gets its full \<open>C\<close> bytes, so each moves the
  position by exactly \<open>C\<close>.
\<close>

theorem chunk_count:
  "well_formed config \<Longrightarrow> all_sent ctx \<Longrightarrow> clean_source reader \<Longrightarrow>
   chunkSize config + peekSize config < int (length (contents reader)) \<Longrightarrow>
   length (emitted (readInChunks ctx reader config))
     = (length (contents reader) + nat (chunkSize config) - 1) div nat (chunkSize config)
   \<and> (length (emitted (readInChunks ctx reader config)) - 1) * nat (chunkSize config)
       < length (contents reader)
   \<and> length (contents reader)
       \<le> length (emitted (readInChunks ctx reader config)) * nat (chunkSize config)
   \<and> (\<forall>i < length (emitted (readInChunks ctx reader config)).
         take (nat (chunkSize config)) (Bytes (emitted (readInChunks ctx reader config) ! i))
           = take (nat (chunkSize config)) (drop (i * nat (chunkSize config)) (contents reader)))
   \<and> (\<forall>i. Suc i < length (emitted (readInChunks ctx reader config)) \<longrightarrow>
         length (take (nat (chunkSize config)) (drop (i * nat (chunkSize config)) (contents reader)))
           = nat (chunkSize config))"
proof -
  assume wf: "well_formed config" and s: "all_sent ctx" and c: "clean_source reader"
    and big: "chunkSize config + peekSize config < int (length (contents reader))"
  let ?C = "nat (chunkSize config)"
  let ?L = "min (nat (peekSize config)) (max ?C 16)"
  let ?src = "contents reader"
  let ?R = "emitted (readInChunks ctx reader config)"
  let ?k = "length ?R"
  from wf have C: "0 < ?C" by (simp add: well_formed_def)
  note ch = readInChunks_clean(1)[OF wf s c]
  have len: "?k = length (chunks_of ?C ?L ?src)"
    using arg_cong[OF ch, of length] by simp
  have lt: "j < ?k \<longleftrightarrow> j * ?C < length ?src" for j
    unfolding len by (rule less_length_chunks_of[OF C])
  from big wf have "0 < int (length ?src)" unfolding well_formed_def by linarith
  then have ne: "0 < length ?src" by simp
  then have kpos: "0 < ?k" using lt[of 0] by simp
  have count: "?k = (length ?src + ?C - 1) div ?C"
    unfolding len by (rule length_chunks_of[OF C])
  have lower: "(?k - 1) * ?C < length ?src"
    using lt[of "?k - 1"] kpos by simp
  have upper: "length ?src \<le> ?k * ?C"
    using lt[of ?k] by simp
  have starts: "\<forall>i < ?k. take ?C (Bytes (?R ! i)) = take ?C (drop (i * ?C) ?src)"
  proof (intro allI impI)
    fix i assume i: "i < ?k"
    then have "Bytes (?R ! i) = chunks_of ?C ?L ?src ! i"
      using arg_cong[OF ch, of "\<lambda>xs. xs ! i"] by simp
    also have "\<dots> = take ?C (drop (i * ?C) ?src) @ take ?L (drop (Suc i * ?C) ?src)"
      using i len by (simp add: nth_chunks_of[OF C])
    also have "drop (Suc i * ?C) ?src = drop ?C (drop (i * ?C) ?src)" by (simp add: add.commute)
    finally show "take ?C (Bytes (?R ! i)) = take ?C (drop (i * ?C) ?src)"
      by (simp only: take_chunk)
  qed
  have full: "\<forall>i. Suc i < ?k \<longrightarrow> length (take ?C (drop (i * ?C) ?src)) = ?C"
  proof (intro allI impI)
    fix i assume "Suc i < ?k"
    then have "Suc i * ?C < length ?src" by (simp only: lt)
    then show "length (take ?C (drop (i * ?C) ?src)) = ?C" by simp
  qed
  from count lower upper starts full show ?thesis by blast
qed

theorem chunk_count_witness:
  "well_formed cfg103 \<and> all_sent undisturbed \<and> clean_source letters
   \<and> chunkSize cfg103 + peekSize cfg103 = 13 \<and> length (contents letters) = 26
   \<and> length (emitted (readInChunks undisturbed letters cfg103)) = 3
   \<and> (26 + 10 - 1) div 10 = (3 :: nat)
   \<and> map Bytes (emitted (readInChunks undisturbed letters cfg103))
       = [take 13 alphabet, take 13 (drop 10 alphabet), drop 20 alphabet]"
proof -
  have wf: "well_formed cfg103" by code_simp
  have cl: "clean_source letters" by code_simp
  have sz: "chunkSize cfg103 + peekSize cfg103 = 13" by code_simp
  have n: "length (contents letters) = 26" by code_simp
  have cs: "nat (chunkSize cfg103) = 10" by code_simp
  have em: "map Bytes (emitted (readInChunks undisturbed letters cfg103))
       = [take 13 alphabet, take 13 (drop 10 alphabet), drop 20 alphabet]" by code_simp
  have big: "chunkSize cfg103 + peekSize cfg103 < int (length (contents letters))"
    using sz n by simp
  from chunk_count[OF wf all_sent_undisturbed cl big]
  have "length (emitted (readInChunks undisturbed letters cfg103)) = (26 + 10 - 1) div 10"
    using n cs by simp
  then show ?thesis using wf cl sz n em all_sent_undisturbed by simp
qed







end
